theory Spec2Isabelle
  imports Complex_Main "HOL-Library.Sublist" "HOL-Library.Multiset"
begin

section \<open>Python strings (ASCII)\<close>

text \<open>
  Strings are lists of 8-bit characters. The model covers ASCII text: the character
  classes below are Python's \<^verbatim>\<open>str.lower\<close>, \<^verbatim>\<open>str.upper\<close>, \<^verbatim>\<open>\w\<close>, \<^verbatim>\<open>\d\<close> and
  \<^verbatim>\<open>\s\<close> restricted to code points below 128; a character outside the tables is
  left alone by \<open>lower\<close> and \<open>upper\<close> and belongs to no class.
\<close>

datatype py_error = IndexError | KeyError

definition ascii_lowercase :: string where
  "ascii_lowercase = ''abcdefghijklmnopqrstuvwxyz''"

definition ascii_uppercase :: string where
  "ascii_uppercase = ''ABCDEFGHIJKLMNOPQRSTUVWXYZ''"

definition digits :: string where
  "digits = ''0123456789''"

definition lower_char :: "char \<Rightarrow> char" where
  "lower_char c = (case map_of (zip ascii_uppercase ascii_lowercase) c of
                     Some d \<Rightarrow> d | None \<Rightarrow> c)"

definition upper_char :: "char \<Rightarrow> char" where
  "upper_char c = (case map_of (zip ascii_lowercase ascii_uppercase) c of
                     Some d \<Rightarrow> d | None \<Rightarrow> c)"

definition lower :: "string \<Rightarrow> string" where
  "lower s = map lower_char s"

definition upper :: "string \<Rightarrow> string" where
  "upper s = map upper_char s"

text \<open>\<^verbatim>\<open>\w\<close>: letters, digits and the underscore.\<close>

definition is_word :: "char \<Rightarrow> bool" where
  "is_word c = (c \<in> set (ascii_lowercase @ ascii_uppercase @ digits @ ''_''))"

text \<open>\<^verbatim>\<open>\d\<close>: the ten decimal digits.\<close>

definition is_digit :: "char \<Rightarrow> bool" where
  "is_digit c = (c \<in> set digits)"

text \<open>
  \<^verbatim>\<open>\s\<close> and the characters \<^verbatim>\<open>str.strip()\<close> removes: tab, line feed, vertical tab,
  form feed, carriage return, the four separators 0x1C to 0x1F, and the space.
\<close>

definition is_space :: "char \<Rightarrow> bool" where
  "is_space c = (c \<in> set [CHR 0x09, CHR 0x0A, CHR 0x0B, CHR 0x0C, CHR 0x0D,
                            CHR 0x1C, CHR 0x1D, CHR 0x1E, CHR 0x1F, CHR 0x20])"

definition strip :: "string \<Rightarrow> string" where
  "strip s = rev (dropWhile is_space (rev (dropWhile is_space s)))"

text \<open>\<^verbatim>\<open>sub in s\<close>: \<open>sub\<close> occurs in \<open>s\<close> as a contiguous run.\<close>

fun contains :: "string \<Rightarrow> string \<Rightarrow> bool" where
  "contains sub [] = (sub = [])"
| "contains sub (c # cs) = (prefix sub (c # cs) \<or> contains sub cs)"

text \<open>
  \<^verbatim>\<open>s.split(sep)\<close> for a non-empty separator: the pieces between the occurrences of
  \<open>sep\<close>, found from the left without overlap. \<open>cur\<close> is the piece being read.
\<close>

function split_from :: "string \<Rightarrow> string \<Rightarrow> string \<Rightarrow> string list" where
  "split_from sep cur [] = [cur]"
| "split_from sep cur (c # cs) =
     (if sep \<noteq> [] \<and> prefix sep (c # cs)
      then cur # split_from sep [] (drop (length sep) (c # cs))
      else split_from sep (cur @ [c]) cs)"
  by pat_completeness auto
termination
  by (relation "measure (\<lambda>(sep, cur, s). length s)") auto

definition split :: "string \<Rightarrow> string \<Rightarrow> string list" where
  "split s sep = split_from sep [] s"

text \<open>\<^verbatim>\<open>str(n)\<close> for an integer: decimal digits, a minus sign for a negative number.\<close>

function str_nat :: "nat \<Rightarrow> string" where
  "str_nat n = (if n < 10 then [digits ! n] else str_nat (n div 10) @ [digits ! (n mod 10)])"
  by pat_completeness auto
termination
  by (relation "measure (\<lambda>n. n)") auto

definition str_int :: "int \<Rightarrow> string" where
  "str_int i = (if i < 0 then CHR ''-'' # str_nat (nat (- i)) else str_nat (nat i))"

text \<open>\<^verbatim>\<open>int(ds)\<close> for a run of decimal digits, as \<^verbatim>\<open>(\d+)\<close> captures it.\<close>

definition digit_val :: "char \<Rightarrow> int" where
  "digit_val c = (case map_of (zip digits [0 ..< 10]) c of Some d \<Rightarrow> int d | None \<Rightarrow> 0)"

definition int_of_digits :: "string \<Rightarrow> int" where
  "int_of_digits ds = foldl (\<lambda>acc c. 10 * acc + digit_val c) 0 ds"

section \<open>The scorer\<close>

text \<open>
  List reads and writes by index raise \<^verbatim>\<open>IndexError\<close> out of range. The indices of
  the scorer come from \<^verbatim>\<open>range\<close>, so they are never negative.
\<close>

definition get_item :: "'a list \<Rightarrow> nat \<Rightarrow> py_error + 'a" where
  "get_item xs i = (if i < length xs then Inr (xs ! i) else Inl IndexError)"

definition set_item :: "'a list \<Rightarrow> nat \<Rightarrow> 'a \<Rightarrow> py_error + 'a list" where
  "set_item xs i v = (if i < length xs then Inr (xs[i := v]) else Inl IndexError)"

text \<open>A \<^verbatim>\<open>for\<close> loop over a list of indices; an exception in the body ends it.\<close>

fun for_each :: "('i \<Rightarrow> 's \<Rightarrow> py_error + 's) \<Rightarrow> 'i list \<Rightarrow> 's \<Rightarrow> py_error + 's" where
  "for_each body [] s = Inr s"
| "for_each body (i # js) s =
     (case body i s of Inl e \<Rightarrow> Inl e | Inr s' \<Rightarrow> for_each body js s')"

text \<open>
  The body of the first pass (lines 101 to 104). The state is
  \<open>(greens, secret_used, guess_used)\<close>.
\<close>

definition green_body ::
  "string \<Rightarrow> string \<Rightarrow> nat \<Rightarrow> int \<times> bool list \<times> bool list
     \<Rightarrow> py_error + (int \<times> bool list \<times> bool list)" where
  "green_body guess secret i st =
     (case st of (greens, secret_used, guess_used) \<Rightarrow>
        (case get_item guess i of Inl e \<Rightarrow> Inl e | Inr a \<Rightarrow>
        (case get_item secret i of Inl e \<Rightarrow> Inl e | Inr b \<Rightarrow>
           if a = b then
             (case set_item secret_used i True of Inl e \<Rightarrow> Inl e | Inr su \<Rightarrow>
             (case set_item guess_used i True of Inl e \<Rightarrow> Inl e | Inr gu \<Rightarrow>
                Inr (greens + 1, su, gu)))
           else Inr st)))"

text \<open>
  The inner loop of the second pass (lines 111 to 115), over the secret's positions
  \<open>js\<close>; \<^verbatim>\<open>break\<close> leaves it at the first position claimed. The state is
  \<open>(yellows, secret_used)\<close>. Python's \<^verbatim>\<open>and\<close> reads \<open>secret[j]\<close> only when
  position \<open>j\<close> is unused.
\<close>

fun inner_loop :: "string \<Rightarrow> char \<Rightarrow> nat list \<Rightarrow> int \<times> bool list \<Rightarrow> py_error + (int \<times> bool list)" where
  "inner_loop secret letter [] st = Inr st"
| "inner_loop secret letter (j # js) st =
     (case st of (yellows, secret_used) \<Rightarrow>
        (case get_item secret_used j of Inl e \<Rightarrow> Inl e | Inr used \<Rightarrow>
           if \<not> used then
             (case get_item secret j of Inl e \<Rightarrow> Inl e | Inr b \<Rightarrow>
                if b = letter then
                  (case set_item secret_used j True of Inl e \<Rightarrow> Inl e | Inr su \<Rightarrow>
                     Inr (yellows + 1, su))
                else inner_loop secret letter js st)
           else inner_loop secret letter js st))"

text \<open>The body of the second pass (lines 108 to 115).\<close>

definition yellow_body ::
  "string \<Rightarrow> string \<Rightarrow> bool list \<Rightarrow> nat \<Rightarrow> int \<times> bool list \<Rightarrow> py_error + (int \<times> bool list)" where
  "yellow_body guess secret guess_used i st =
     (case get_item guess_used i of Inl e \<Rightarrow> Inl e | Inr used \<Rightarrow>
        if \<not> used then
          (case get_item guess i of Inl e \<Rightarrow> Inl e | Inr letter \<Rightarrow>
             inner_loop secret letter [0 ..< length secret] st)
        else Inr st)"

definition calculate_hurdle_feedback :: "string \<Rightarrow> string \<Rightarrow> py_error + (int \<times> int)" where
  "calculate_hurdle_feedback guess0 secret0 =
     (let guess = lower guess0;
          secret = lower secret0;
          secret_used = replicate (length secret) False;
          guess_used = replicate (length guess) False
      in case for_each (green_body guess secret) [0 ..< min (length guess) (length secret)]
                (0, secret_used, guess_used) of
           Inl e \<Rightarrow> Inl e
         | Inr (greens, su, gu) \<Rightarrow>
             (case for_each (yellow_body guess secret gu) [0 ..< length guess] (0, su) of
                Inl e \<Rightarrow> Inl e
              | Inr (yellows, su') \<Rightarrow> Inr (greens, yellows)))"

section \<open>The reference scorer of the specification\<close>

text \<open>
  The two-pass algorithm as the specification words it, for a guess and a secret of the
  common length \<open>L\<close>; it is compared with \<open>calculate_hurdle_feedback\<close> below. The
  green pass visits every index below \<open>L\<close> and, where the letters agree, counts a green and
  marks the guess position and the secret position consumed.
\<close>

definition ref_green_pass :: "nat \<Rightarrow> string \<Rightarrow> string \<Rightarrow> int \<times> nat list \<times> nat list" where
  "ref_green_pass L guess secret =
     fold (\<lambda>i (greens, consumed_guess, consumed_secret).
             if guess ! i = secret ! i
             then (greens + 1, i # consumed_guess, i # consumed_secret)
             else (greens, consumed_guess, consumed_secret))
          [0 ..< L] (0, [], [])"

text \<open>
  The first unconsumed secret position, in secret order, whose letter is the given one.
\<close>

definition ref_first_match :: "nat \<Rightarrow> string \<Rightarrow> nat list \<Rightarrow> char \<Rightarrow> nat option" where
  "ref_first_match L secret consumed_secret letter =
     List.find (\<lambda>j. secret ! j = letter) (filter (\<lambda>j. j \<notin> set consumed_secret) [0 ..< L])"

text \<open>
  The yellow pass visits the guess positions left to right and skips the consumed ones;
  a position whose letter is found counts a yellow and consumes both positions.
\<close>

fun ref_yellow_pass ::
  "nat \<Rightarrow> string \<Rightarrow> string \<Rightarrow> nat list \<Rightarrow> int \<times> nat list \<times> nat list \<Rightarrow> int \<times> nat list \<times> nat list" where
  "ref_yellow_pass L guess secret [] st = st"
| "ref_yellow_pass L guess secret (i # js) (yellows, consumed_guess, consumed_secret) =
     (if i \<in> set consumed_guess
      then ref_yellow_pass L guess secret js (yellows, consumed_guess, consumed_secret)
      else (case ref_first_match L secret consumed_secret (guess ! i) of
              None \<Rightarrow> ref_yellow_pass L guess secret js (yellows, consumed_guess, consumed_secret)
            | Some j \<Rightarrow> ref_yellow_pass L guess secret js
                          (yellows + 1, i # consumed_guess, j # consumed_secret)))"

definition ref_feedback :: "nat \<Rightarrow> string \<Rightarrow> string \<Rightarrow> int \<times> int" where
  "ref_feedback L guess secret =
     (case ref_green_pass L guess secret of
        (greens, consumed_guess, consumed_secret) \<Rightarrow>
          (case ref_yellow_pass L guess secret [0 ..< L] (0, consumed_guess, consumed_secret) of
             (yellows, _, _) \<Rightarrow> (greens, yellows)))"


section \<open>The game engine\<close>

text \<open>
  \<^verbatim>\<open>re.search(r"\[(\w+)\]", action)\<close>: the leftmost opening bracket that is followed by
  a non-empty run of word characters and a closing bracket; the result is the run (group
  1). The run is the longest one, since a shorter run is followed by a word character
  and not by the bracket.
\<close>

fun re_search_bracket :: "string \<Rightarrow> string option" where
  "re_search_bracket [] = None"
| "re_search_bracket (c # cs) =
     (if c = CHR ''[''
         \<and> takeWhile is_word cs \<noteq> []
         \<and> prefix '']'' (dropWhile is_word cs)
      then Some (takeWhile is_word cs)
      else re_search_bracket cs)"

datatype observation_type = PLAYER_ACTION | GAME_MESSAGE | GAME_ADMIN

text \<open>
  \<^verbatim>\<open>self.state.game_state\<close>: the dictionary with the keys \<^verbatim>\<open>secret_word\<close>,
  \<^verbatim>\<open>word_length\<close>, \<^verbatim>\<open>num_guesses\<close> and \<^verbatim>\<open>guess_history\<close>; an entry of the history
  is \<^verbatim>\<open>(word, (greens, yellows))\<close>.
\<close>

record game_state =
  secret_word :: string
  word_length :: int
  num_guesses :: int
  guess_history :: "(string \<times> int \<times> int) list"

text \<open>
  Modelled from the spec: the state object of the host framework (textarena's
  \<^verbatim>\<open>State\<close>) with its methods \<^verbatim>\<open>add_observation\<close>, \<^verbatim>\<open>set_invalid_move\<close>,
  \<^verbatim>\<open>set_outcome\<close> and \<^verbatim>\<open>step\<close> is not among the sources. The record keeps what the
  engine reads and writes: the game state, the terminal flag (\<^verbatim>\<open>done\<close>), the reward of
  player 0 (\<^verbatim>\<open>rewards\<close>, absent until one is set), the reason of the outcome, the error
  allowance and the observations.
\<close>

record state =
  game_state :: game_state
  finished :: bool
  rewards :: "real option"
  outcome_reason :: "string option"
  error_allowance :: int
  observations :: "(observation_type \<times> string) list"

text \<open>
  The dictionary \<^verbatim>\<open>info\<close> that \<^verbatim>\<open>step\<close> returns, with the keys the engine sets.
\<close>

record info =
  reason :: "string option"
  reward :: real
  latest_observation :: "string option"

text \<open>Modelled from the spec: an observation is appended to the transcript.\<close>

definition add_observation :: "string \<Rightarrow> observation_type \<Rightarrow> state \<Rightarrow> state" where
  "add_observation message observation_type s =
     s\<lparr>observations := observations s @ [(observation_type, message)]\<rparr>"

text \<open>
  Modelled from the spec: a malformed submission consumes one unit of the error
  allowance, is surfaced as a corrective message with the reward it is given, and neither
  changes the game state nor ends the episode.
\<close>

definition set_invalid_move :: "real \<Rightarrow> string \<Rightarrow> state \<Rightarrow> state" where
  "set_invalid_move r why s =
     s\<lparr>error_allowance := error_allowance s - 1,
       rewards := Some r,
       observations := observations s @ [(GAME_ADMIN, why)]\<rparr>"

text \<open>
  Modelled from the spec: setting the outcome records the reward and the reason and makes
  the episode terminal.
\<close>

definition set_outcome :: "real \<Rightarrow> string \<Rightarrow> state \<Rightarrow> state" where
  "set_outcome r why s = s\<lparr>finished := True, rewards := Some r, outcome_reason := Some why\<rparr>"

text \<open>
  Modelled from the spec: \<^verbatim>\<open>self.state.step()\<close> reports whether the episode is terminal.
\<close>

definition state_step :: "state \<Rightarrow> bool \<times> state" where
  "state_step s = (finished s, s)"

text \<open>
  Modelled from the spec: \<^verbatim>\<open>reset\<close> of the parent class is not among the sources. An
  episode starts with the secret it is given, an empty history and no outcome;
  \<^verbatim>\<open>HurdleWordleEnv.reset\<close> then sets the error allowance to 10.
\<close>

definition reset :: "string \<Rightarrow> int \<Rightarrow> int \<Rightarrow> state" where
  "reset secret L M =
     \<lparr>game_state = \<lparr>secret_word = secret, word_length = L, num_guesses = M, guess_history = []\<rparr>,
      finished = False, rewards = None, outcome_reason = None, error_allowance = 0,
      observations = []\<rparr>\<lparr>error_allowance := 10\<rparr>"

definition wrong_format_reason :: string where
  "wrong_format_reason =
     ''You tried submitting a word in the wrong format. Please make sure to use squared brackets.''"

definition length_reason :: "int \<Rightarrow> string" where
  "length_reason L = ''Your word must be exactly '' @ str_int L @ '' letters.''"

definition win_reason :: string where
  "win_reason = ''Congratulations! You guessed the word correctly!''"

definition lose_reason :: "string \<Rightarrow> string" where
  "lose_reason secret =
     ''Game over! The word was '' @ [CHR 0x27] @ upper secret @ [CHR 0x27] @ ''.''"

definition feedback_msg :: "string \<Rightarrow> int \<Rightarrow> int \<Rightarrow> string" where
  "feedback_msg word greens yellows =
     ''You submitted ['' @ upper word @ ''].'' @ [CHR 0x0A]
     @ ''Feedback: greens: '' @ str_int greens @ '', yellows: '' @ str_int yellows"

text \<open>
  The two early returns of \<^verbatim>\<open>step\<close> for a submission that is not accepted (lines 153 to
  158 and 162 to 167). \<open>pct\<close> stands for \<^verbatim>\<open>_get_percentage_completion\<close> of the parent
  class, which is not among the sources.
\<close>

definition invalid_move :: "(state \<Rightarrow> real) \<Rightarrow> string \<Rightarrow> state \<Rightarrow> bool \<times> info \<times> state" where
  "invalid_move pct why s =
     (let s2 = set_invalid_move (pct s) why s;
          (is_done, s3) = state_step s2
      in (is_done,
          \<lparr>reason = Some why,
           reward = (case rewards s3 of Some r \<Rightarrow> r | None \<Rightarrow> 0),
           latest_observation = None\<rparr>,
          s3))"

text \<open>\<^verbatim>\<open>HurdleWordleEnv.step\<close> (lines 147 to 206).\<close>

definition step :: "(state \<Rightarrow> real) \<Rightarrow> state \<Rightarrow> string \<Rightarrow> py_error + (bool \<times> info \<times> state)" where
  "step pct s0 action =
     (let s1 = add_observation action PLAYER_ACTION s0 in
      case re_search_bracket action of
        None \<Rightarrow> Inr (invalid_move pct wrong_format_reason s1)
      | Some tok \<Rightarrow>
          (let word = lower tok in
           if int (length word) \<noteq> word_length (game_state s1)
           then Inr (invalid_move pct (length_reason (word_length (game_state s1))) s1)
           else
             (let secret = secret_word (game_state s1) in
              case calculate_hurdle_feedback word secret of
                Inl e \<Rightarrow> Inl e
              | Inr (greens, yellows) \<Rightarrow>
                  (let s2 = s1\<lparr>game_state := (game_state s1)
                               \<lparr>guess_history := guess_history (game_state s1) @ [(word, greens, yellows)]\<rparr>\<rparr>
                   in
                   if lower word = lower secret then
                     (let s3 = add_observation
                                 (feedback_msg word greens yellows @ [CHR 0x0A] @ win_reason)
                                 GAME_MESSAGE s2;
                          s4 = set_outcome 1 win_reason s3;
                          (is_done, s5) = state_step s4
                      in Inr (is_done,
                              \<lparr>reason = Some win_reason, reward = 1, latest_observation = None\<rparr>,
                              s5))
                   else if int (length (guess_history (game_state s2))) \<ge> num_guesses (game_state s2) then
                     (let s3 = add_observation
                                 (feedback_msg word greens yellows @ [CHR 0x0A] @ lose_reason secret)
                                 GAME_MESSAGE s2;
                          s4 = set_outcome 0 (lose_reason secret) s3;
                          (is_done, s5) = state_step s4
                      in Inr (is_done,
                              \<lparr>reason = Some (lose_reason secret), reward = 0,
                               latest_observation = None\<rparr>,
                              s5))
                   else
                     (let s3 = add_observation (feedback_msg word greens yellows) GAME_MESSAGE s2;
                          (is_done, s4) = state_step s3
                      in Inr (is_done,
                              \<lparr>reason = None,
                               reward = 0.2 * real_of_int greens + 0.1 * real_of_int yellows,
                               latest_observation = Some (feedback_msg word greens yellows)\<rparr>,
                              s4))))))"

text \<open>
  A sequence of calls of \<^verbatim>\<open>step\<close> on one episode, whatever the turns report.
\<close>

fun run :: "(state \<Rightarrow> real) \<Rightarrow> state \<Rightarrow> string list \<Rightarrow> py_error + state" where
  "run pct s [] = Inr s"
| "run pct s (a # acts) =
     (case step pct s a of
        Inl e \<Rightarrow> Inl e
      | Inr (is_done, i, s') \<Rightarrow> run pct s' acts)"

text \<open>
  The calls an orchestrator makes that stops submitting once a turn is reported terminal.
\<close>

fun play :: "(state \<Rightarrow> real) \<Rightarrow> state \<Rightarrow> string list \<Rightarrow> py_error + state" where
  "play pct s [] = Inr s"
| "play pct s (a # acts) =
     (case step pct s a of
        Inl e \<Rightarrow> Inl e
      | Inr (is_done, i, s') \<Rightarrow> if is_done then Inr s' else play pct s' acts)"

text \<open>
  One call of \<^verbatim>\<open>step\<close> made after a sequence of calls on the same episode.
\<close>

definition step_after :: "(state \<Rightarrow> real) \<Rightarrow> state \<Rightarrow> string list \<Rightarrow> string
                            \<Rightarrow> py_error + (bool \<times> info \<times> state)" where
  "step_after pct s acts a =
     (case run pct s acts of
        Inl e \<Rightarrow> Inl e
      | Inr s' \<Rightarrow> step pct s' a)"

definition no_completion :: "state \<Rightarrow> real" where
  "no_completion s = 0"

text \<open>The number of records in the history of guesses.\<close>

definition history_length :: "state \<Rightarrow> nat" where
  "history_length s = length (guess_history (game_state s))"

section \<open>The reward functions\<close>

text \<open>
  A message of a transcript: a dictionary with the keys \<^verbatim>\<open>role\<close> and \<^verbatim>\<open>content\<close>, both
  present and both strings.
\<close>

record message =
  role :: string
  content :: string

text \<open>
  \<^verbatim>\<open>check_answer_reward_func\<close> (lines 46 to 48). Its argument \<open>parse_answer\<close> stands for
  the method of the parser it is called with, which yields the answer of a transcript
  or \<^verbatim>\<open>None\<close>; the parser is not among the sources.
\<close>

definition check_answer_reward_func :: "(message list \<Rightarrow> string option) \<Rightarrow> message list \<Rightarrow> string \<Rightarrow> real" where
  "check_answer_reward_func parse_answer completion answer =
     (let guess = parse_answer completion
      in if guess = Some (''['' @ answer @ '']'') then 1 else 0)"

text \<open>
  The parser's method on a transcript whose answer is \<open>w\<close>, and two transcripts of one
  message each, as the repository's test of the correctness reward builds them.
\<close>

definition answer_is :: "string \<Rightarrow> message list \<Rightarrow> string option" where
  "answer_is w completion = Some w"

definition plant_lower_example :: "message list" where
  "plant_lower_example = [\<lparr>role = ''assistant'', content = ''<guess>[plant]</guess>''\<rparr>]"

definition plant_upper_example :: "message list" where
  "plant_upper_example = [\<lparr>role = ''assistant'', content = ''<guess>[PLANT]</guess>''\<rparr>]"

text \<open>\<^verbatim>\<open>count_turns_reward_func\<close> (lines 51 to 58).\<close>

definition count_turns_reward_func :: "(message list \<Rightarrow> string option) \<Rightarrow> message list \<Rightarrow> string \<Rightarrow> real" where
  "count_turns_reward_func parse_answer completion answer =
     (let assistant_messages = filter (\<lambda>x. role x = ''assistant'') completion;
          num_turns = int (length assistant_messages);
          num_turns' = (if num_turns > 0
                           \<and> contains ''Welcome to Hurdle Wordle!'' (content (hd assistant_messages))
                        then num_turns - 1 else num_turns);
          is_correct = check_answer_reward_func parse_answer completion answer
      in is_correct / real_of_int (num_turns' + 1))"

text \<open>
  The guessing turns of a transcript as the specification counts them: the turns of the
  assistant, without a leading turn that holds the welcome text.
\<close>

definition guessing_turns :: "message list \<Rightarrow> message list" where
  "guessing_turns completion =
     (case filter (\<lambda>x. role x = ''assistant'') completion of
        [] \<Rightarrow> []
      | m # ms \<Rightarrow> if contains ''Welcome to Hurdle Wordle!'' (content m) then ms else m # ms)"

text \<open>The transcript of \<^verbatim>\<open>test_count_turns_reward_func\<close>.\<close>

definition count_turns_example :: "message list" where
  "count_turns_example =
     [\<lparr>role = ''assistant'', content = ''Welcome to Hurdle Wordle! You need to guess...''\<rparr>,
      \<lparr>role = ''assistant'', content = ''<guess>[crane]</guess>''\<rparr>,
      \<lparr>role = ''user'', content = ''Feedback: greens: 0, yellows: 1''\<rparr>,
      \<lparr>role = ''assistant'', content = ''<guess>[plant]</guess>''\<rparr>,
      \<lparr>role = ''user'', content = ''Congratulations! You guessed the word correctly!''\<rparr>]"

text \<open>
  \<^verbatim>\<open>re.search(key + r"\s*(\d+)", text)\<close> for a literal \<open>key\<close>: the leftmost occurrence
  of the key that is followed, after any white space, by a digit; the result is the
  longest run of digits there (group 1).
\<close>

fun re_search_count :: "string \<Rightarrow> string \<Rightarrow> string option" where
  "re_search_count key [] = None"
| "re_search_count key (c # cs) =
     (if prefix key (c # cs)
         \<and> takeWhile is_digit (dropWhile is_space (drop (length key) (c # cs))) \<noteq> []
      then Some (takeWhile is_digit (dropWhile is_space (drop (length key) (c # cs))))
      else re_search_count key cs)"

text \<open>
  Modelled from the spec: \<^verbatim>\<open>get_user_messages\<close> of the parser is not among the sources.
  The messages of the environment are those of the transcript with the role \<open>user\<close>.
\<close>

definition get_user_messages :: "message list \<Rightarrow> message list" where
  "get_user_messages completion = filter (\<lambda>x. role x = ''user'') completion"

text \<open>
  \<^verbatim>\<open>partial_credit_reward_func\<close> (lines 61 to 75). The index \<^verbatim>\<open>[-1]\<close> raises
  \<^verbatim>\<open>IndexError\<close> on an empty list.
\<close>

definition partial_credit_reward_func :: "message list \<Rightarrow> py_error + real" where
  "partial_credit_reward_func completion =
     (case get_user_messages completion of
        [] \<Rightarrow> Inl IndexError
      | m # ms \<Rightarrow>
          (let final_env_response = strip (content (last (m # ms))) in
           if contains ''Feedback:'' final_env_response then
             (let feedback_line = strip (last (split final_env_response ''Feedback:''));
                  green_match = re_search_count ''greens:'' feedback_line;
                  yellow_match = re_search_count ''yellows:'' feedback_line
              in case (green_match, yellow_match) of
                   (Some gd, Some yd) \<Rightarrow>
                     Inr (0.2 * real_of_int (int_of_digits gd) + 0.1 * real_of_int (int_of_digits yd))
                 | _ \<Rightarrow> Inr 0)
           else Inr 0))"

text \<open>The transcripts of the two tests of \<^verbatim>\<open>partial_credit_reward_func\<close>.\<close>

definition partial_credit_example :: "message list" where
  "partial_credit_example =
     [\<lparr>role = ''assistant'', content = ''You are playing Hurdle Wordle...''\<rparr>,
      \<lparr>role = ''assistant'', content = ''<guess>[crane]</guess>''\<rparr>,
      \<lparr>role = ''user'',
       content = ''You submitted [CRANE].'' @ [CHR 0x0A] @ ''Feedback: greens: 1, yellows: 2''\<rparr>]"

definition no_feedback_example :: "message list" where
  "no_feedback_example =
     [\<lparr>role = ''assistant'', content = ''<guess>[invalidword]</guess>''\<rparr>,
      \<lparr>role = ''user'',
       content = [CHR 0x27] @ ''invalidword'' @ [CHR 0x27] @ '' is not a valid word.''\<rparr>]"

text \<open>
  A message with two markers, the counts after the first one only, and a transcript
  without a message of the environment.
\<close>

definition two_markers_example :: "message list" where
  "two_markers_example =
     [\<lparr>role = ''assistant'', content = ''<guess>[crane]</guess>''\<rparr>,
      \<lparr>role = ''user'', content = ''Feedback: greens: 1, yellows: 2. Feedback: none''\<rparr>]"

definition no_user_example :: "message list" where
  "no_user_example = [\<lparr>role = ''assistant'', content = ''<guess>[crane]</guess>''\<rparr>]"

section \<open>Auxiliary notions for the scorer's proofs\<close>

text \<open>\<open>mark ps xs\<close> sets the entries of \<open>xs\<close> at the positions \<open>ps\<close>.\<close>

definition mark :: "nat list \<Rightarrow> bool list \<Rightarrow> bool list" where
  "mark ps xs = fold (\<lambda>i ys. ys[i := True]) ps xs"

text \<open>
  The second pass without the index checks, over the letters of the guess positions that
  are not green: each letter claims the first unused secret position holding it.
\<close>

fun yellow_scan :: "string \<Rightarrow> string \<Rightarrow> int \<times> bool list \<Rightarrow> int \<times> bool list" where
  "yellow_scan secret [] st = st"
| "yellow_scan secret (c # cs) st =
     (case List.find (\<lambda>j. \<not> snd st ! j \<and> secret ! j = c) [0 ..< length secret] of
        None \<Rightarrow> yellow_scan secret cs st
      | Some j \<Rightarrow> yellow_scan secret cs (fst st + 1, (snd st)[j := True]))"

text \<open>The letters of the secret at the positions not yet used, as a multiset.\<close>

definition remaining :: "string \<Rightarrow> bool list \<Rightarrow> char multiset" where
  "remaining secret su = mset (map ((!) secret) (filter (\<lambda>j. \<not> su ! j) [0 ..< length secret]))"

text \<open>The positions the first pass marks, and the letters of a word outside them.\<close>

definition green_positions :: "string \<Rightarrow> string \<Rightarrow> nat list" where
  "green_positions guess secret =
     filter (\<lambda>i. guess ! i = secret ! i) [0 ..< min (length guess) (length secret)]"

definition unmatched :: "string \<Rightarrow> nat list \<Rightarrow> string" where
  "unmatched w ps = map ((!) w) (filter (\<lambda>i. i \<notin> set ps) [0 ..< length w])"

section \<open>Properties of the scorer\<close>

lemma length_mark: "length (mark ps xs) = length xs"
  unfolding mark_def by (induction ps arbitrary: xs) auto

lemma nth_mark: "j < length xs \<Longrightarrow> mark ps xs ! j = (xs ! j \<or> j \<in> set ps)"
proof (induction ps arbitrary: xs)
  case Nil
  then show ?case by (simp add: mark_def)
next
  case (Cons a ps)
  have "mark (a # ps) xs ! j = mark ps (xs[a := True]) ! j"
    by (simp add: mark_def)
  also have "\<dots> = (xs[a := True] ! j \<or> j \<in> set ps)"
    using Cons by simp
  also have "\<dots> = (xs ! j \<or> j \<in> set (a # ps))"
    using Cons.prems by (cases "a < length xs") (auto simp: nth_list_update)
  finally show ?case .
qed

lemma inner_loop_find:
  assumes "\<forall>j\<in>set js. j < length su \<and> j < length secret"
  shows "inner_loop secret c js (y, su) =
         (case List.find (\<lambda>j. \<not> su ! j \<and> secret ! j = c) js of
            None \<Rightarrow> Inr (y, su)
          | Some j \<Rightarrow> Inr (y + 1, su[j := True]))"
  using assms by (induction js) (auto simp: get_item_def set_item_def)

lemma green_pass_closed:
  assumes "\<forall>i\<in>set js. i < length guess \<and> i < length secret \<and> i < length su \<and> i < length gu"
  shows "for_each (green_body guess secret) js (g, su, gu) =
         Inr (g + int (length (filter (\<lambda>i. guess ! i = secret ! i) js)),
              mark (filter (\<lambda>i. guess ! i = secret ! i) js) su,
              mark (filter (\<lambda>i. guess ! i = secret ! i) js) gu)"
  using assms
  by (induction js arbitrary: g su gu)
     (auto simp: green_body_def get_item_def set_item_def mark_def)

lemma yellow_scan_length: "length (snd (yellow_scan secret cs st)) = length (snd st)"
  by (induction cs arbitrary: st) (auto split: option.splits)

lemma yellow_pass_closed:
  assumes "\<forall>i\<in>set js. i < length guess \<and> i < length gu" "length su = length secret"
  shows "for_each (yellow_body guess secret gu) js (y, su) =
         Inr (yellow_scan secret (map ((!) guess) (filter (\<lambda>i. \<not> gu ! i) js)) (y, su))"
  using assms
proof (induction js arbitrary: y su)
  case Nil
  then show ?case by simp
next
  case (Cons i js)
  show ?case
  proof (cases "gu ! i")
    case True
    with Cons show ?thesis by (simp add: yellow_body_def get_item_def)
  next
    case False
    have inr: "\<forall>j\<in>set [0 ..< length secret]. j < length su \<and> j < length secret"
      using Cons.prems by simp
    show ?thesis
    proof (cases "List.find (\<lambda>j. \<not> su ! j \<and> secret ! j = guess ! i) [0 ..< length secret]")
      case None
      with False Cons inr show ?thesis
        by (simp add: yellow_body_def get_item_def inner_loop_find)
    next
      case (Some j)
      with False Cons inr show ?thesis
        by (simp add: yellow_body_def get_item_def inner_loop_find)
    qed
  qed
qed

lemma mset_filter_drop_one:
  assumes "distinct xs" "j \<in> set xs" "P j"
  shows "mset (map f (filter (\<lambda>k. P k \<and> k \<noteq> j) xs)) = mset (map f (filter P xs)) - {#f j#}"
  using assms
proof (induction xs)
  case Nil
  then show ?case by simp
next
  case (Cons x xs)
  show ?case
  proof (cases "x = j")
    case True
    then have "j \<notin> set xs" using Cons.prems by simp
    then have "filter (\<lambda>k. P k \<and> k \<noteq> j) xs = filter P xs"
      by (intro filter_cong) auto
    with True Cons.prems show ?thesis by simp
  next
    case False
    then have j: "j \<in> set xs" using Cons.prems by simp
    then have "f j \<in># mset (map f (filter P xs))" using Cons.prems by auto
    with False Cons j show ?thesis by auto
  qed
qed

lemma remaining_claim:
  assumes "j < length secret" "length su = length secret" "\<not> su ! j"
  shows "remaining secret (su[j := True]) = remaining secret su - {#secret ! j#}"
proof -
  have "filter (\<lambda>k. \<not> su[j := True] ! k) [0 ..< length secret]
        = filter (\<lambda>k. \<not> su ! k \<and> k \<noteq> j) [0 ..< length secret]"
    using assms by (intro filter_cong) (auto simp: nth_list_update)
  moreover have "mset (map ((!) secret) (filter (\<lambda>k. \<not> su ! k \<and> k \<noteq> j) [0 ..< length secret]))
        = mset (map ((!) secret) (filter (\<lambda>k. \<not> su ! k) [0 ..< length secret])) - {#secret ! j#}"
    using assms by (intro mset_filter_drop_one) auto
  ultimately show ?thesis
    unfolding remaining_def by (simp only:)
qed

lemma remaining_member:
  assumes "j < length secret" "\<not> su ! j"
  shows "secret ! j \<in># remaining secret su"
  unfolding remaining_def using assms by auto

lemma remaining_not_member:
  assumes "\<forall>j<length secret. \<not> (\<not> su ! j \<and> secret ! j = c)"
  shows "c \<notin># remaining secret su"
  unfolding remaining_def using assms by auto

lemma yellow_scan_count:
  assumes "length su = length secret"
  shows "fst (yellow_scan secret cs (y, su)) = y + int (size (mset cs \<inter># remaining secret su))"
  using assms
proof (induction cs arbitrary: y su)
  case Nil
  then show ?case by simp
next
  case (Cons c cs)
  show ?case
  proof (cases "List.find (\<lambda>j. \<not> su ! j \<and> secret ! j = c) [0 ..< length secret]")
    case None
    then have "c \<notin># remaining secret su"
      by (intro remaining_not_member) (auto simp: find_None_iff)
    with None Cons show ?thesis by (simp add: inter_add_left1)
  next
    case (Some j)
    then have j: "j < length secret" "\<not> su ! j" "secret ! j = c"
      by (auto simp: find_Some_iff)
    then have mem: "c \<in># remaining secret su"
      using remaining_member by blast
    have rem: "remaining secret (su[j := True]) = remaining secret su - {#c#}"
      using remaining_claim [of j secret su] j Cons.prems by simp
    have "fst (yellow_scan secret (c # cs) (y, su)) = fst (yellow_scan secret cs (y + 1, su[j := True]))"
      using Some by simp
    also have "\<dots> = y + 1 + int (size (mset cs \<inter># (remaining secret su - {#c#})))"
      using Cons.IH [of "su[j := True]" "y + 1"] Cons.prems rem by simp
    also have "\<dots> = y + int (size (mset (c # cs) \<inter># remaining secret su))"
      using mem by (simp add: inter_add_left2)
    finally show ?thesis .
  qed
qed

lemma feedback_scan:
  "calculate_hurdle_feedback guess secret =
     Inr (int (length (green_positions (lower guess) (lower secret))),
          fst (yellow_scan (lower secret)
                 (unmatched (lower guess) (green_positions (lower guess) (lower secret)))
                 (0, mark (green_positions (lower guess) (lower secret))
                       (replicate (length (lower secret)) False))))"
proof -
  define g where "g = lower guess"
  define s where "s = lower secret"
  define ps where "ps = green_positions g s"
  define su where "su = mark ps (replicate (length s) False)"
  define gu where "gu = mark ps (replicate (length g) False)"
  have green: "for_each (green_body g s) [0 ..< min (length g) (length s)]
                 (0, replicate (length s) False, replicate (length g) False)
               = Inr (int (length ps), su, gu)"
    unfolding ps_def su_def gu_def green_positions_def
    by (subst green_pass_closed) auto
  have lsu: "length su = length s" and lgu: "length gu = length g"
    by (simp_all add: su_def gu_def length_mark)
  have yellow: "for_each (yellow_body g s gu) [0 ..< length g] (0, su)
                = Inr (yellow_scan s (map ((!) g) (filter (\<lambda>i. \<not> gu ! i) [0 ..< length g])) (0, su))"
    using lsu lgu by (intro yellow_pass_closed) auto
  have fg: "filter (\<lambda>i. \<not> gu ! i) [0 ..< length g] = filter (\<lambda>i. i \<notin> set ps) [0 ..< length g]"
    by (intro filter_cong) (auto simp: gu_def nth_mark)
  have "calculate_hurdle_feedback guess secret
        = Inr (int (length ps), fst (yellow_scan s (unmatched g ps) (0, su)))"
    unfolding calculate_hurdle_feedback_def Let_def
    using green yellow fg
    by (simp add: g_def [symmetric] s_def [symmetric] unmatched_def split: prod.splits)
  then show ?thesis
    by (simp add: g_def s_def ps_def su_def)
qed

lemma remaining_mark:
  "remaining s (mark ps (replicate (length s) False)) = mset (unmatched s ps)"
proof -
  have "filter (\<lambda>j. \<not> mark ps (replicate (length s) False) ! j) [0 ..< length s]
        = filter (\<lambda>j. j \<notin> set ps) [0 ..< length s]"
    by (intro filter_cong) (auto simp: nth_mark)
  then show ?thesis
    unfolding remaining_def unmatched_def by (simp only:)
qed

lemma feedback_closed:
  "calculate_hurdle_feedback guess secret =
     Inr (int (length (green_positions (lower guess) (lower secret))),
          int (size (mset (unmatched (lower guess) (green_positions (lower guess) (lower secret)))
                     \<inter># mset (unmatched (lower secret) (green_positions (lower guess) (lower secret))))))"
  unfolding feedback_scan
  by (simp add: yellow_scan_count length_mark remaining_mark)

lemma filter_member_prefix:
  assumes "m \<le> n"
  shows "filter (\<lambda>i. i \<in> set (filter P [0 ..< m])) [0 ..< n] = filter P [0 ..< m]"
proof -
  obtain k where n: "n = m + k" using assms le_Suc_ex by blast
  have "[0 ..< n] = [0 ..< m] @ [m ..< m + k]"
    unfolding n by (rule upt_add_eq_append) simp
  moreover have "filter (\<lambda>i. i \<in> set (filter P [0 ..< m])) [0 ..< m] = filter P [0 ..< m]"
    by (intro filter_cong) auto
  moreover have "filter (\<lambda>i. i \<in> set (filter P [0 ..< m])) [m ..< m + k] = []"
    by (auto simp: filter_empty_conv)
  ultimately show ?thesis by simp
qed

lemma mset_split_unmatched:
  assumes "m \<le> length w"
  shows "mset w = mset (map ((!) w) (filter P [0 ..< m])) + mset (unmatched w (filter P [0 ..< m]))"
proof -
  let ?Q = "\<lambda>i. i \<in> set (filter P [0 ..< m])"
  let ?xs = "[0 ..< length w]"
  have part: "mset ?xs = mset (filter ?Q ?xs) + mset (filter (\<lambda>i. \<not> ?Q i) ?xs)"
    by (simp only: mset_filter) (rule multiset_partition)
  have "mset w = image_mset ((!) w) (mset ?xs)"
    by (simp only: mset_map [symmetric] map_nth)
  also have "\<dots> = image_mset ((!) w) (mset (filter ?Q ?xs) + mset (filter (\<lambda>i. \<not> ?Q i) ?xs))"
    by (rule arg_cong [OF part])
  also have "\<dots> = mset (map ((!) w) (filter ?Q ?xs)) + mset (map ((!) w) (filter (\<lambda>i. \<not> ?Q i) ?xs))"
    by (simp only: image_mset_union mset_map)
  finally show ?thesis
    unfolding unmatched_def
    by (simp only: filter_member_prefix [OF assms])
qed

lemma length_split_unmatched:
  assumes "m \<le> length w"
  shows "length w = length (filter P [0 ..< m]) + length (unmatched w (filter P [0 ..< m]))"
proof -
  have "size (mset w) = size (mset (map ((!) w) (filter P [0 ..< m]))) + size (mset (unmatched w (filter P [0 ..< m])))"
    by (subst mset_split_unmatched [OF assms, of P]) (simp only: size_union)
  then show ?thesis by (simp only: size_mset length_map)
qed

lemma length_lower: "length (lower s) = length s"
  by (simp add: lower_def)

lemma feedback_sum_bounds:
  fixes g s :: string
  defines "ps \<equiv> green_positions g s"
  shows "length ps + size (mset (unmatched g ps) \<inter># mset (unmatched s ps)) \<le> min (length g) (length s)"
proof -
  let ?m = "min (length g) (length s)"
  let ?P = "\<lambda>i. g ! i = s ! i"
  have ps: "ps = filter ?P [0 ..< ?m]"
    by (simp add: ps_def green_positions_def)
  have lg: "length g = length ps + length (unmatched g ps)"
    unfolding ps by (rule length_split_unmatched) simp
  have ls: "length s = length ps + length (unmatched s ps)"
    unfolding ps by (rule length_split_unmatched) simp
  have "size (mset (unmatched g ps) \<inter># mset (unmatched s ps)) \<le> size (mset (unmatched g ps))"
    by (rule size_mset_mono) simp
  moreover have "size (mset (unmatched g ps) \<inter># mset (unmatched s ps)) \<le> size (mset (unmatched s ps))"
    by (rule size_mset_mono) simp
  ultimately show ?thesis using lg ls by simp
qed

lemma feedback_sum_anagram:
  fixes g s :: string
  defines "ps \<equiv> green_positions g s"
  assumes "mset g = mset s"
  shows "length ps + size (mset (unmatched g ps) \<inter># mset (unmatched s ps)) = length s"
proof -
  have len: "length g = length s"
    using assms(2) by (rule mset_eq_length)
  let ?P = "\<lambda>i. g ! i = s ! i"
  have ps: "ps = filter ?P [0 ..< length s]"
    by (simp add: ps_def green_positions_def len)
  have same: "map ((!) g) ps = map ((!) s) ps"
    unfolding ps by simp
  have mg: "mset g = mset (map ((!) g) ps) + mset (unmatched g ps)"
    unfolding ps by (rule mset_split_unmatched) (simp add: len)
  have ms: "mset s = mset (map ((!) s) ps) + mset (unmatched s ps)"
    unfolding ps by (rule mset_split_unmatched) simp
  have "mset (map ((!) s) ps) + mset (unmatched g ps) = mset (map ((!) s) ps) + mset (unmatched s ps)"
    using mg ms assms(2) same by simp
  then have eq: "mset (unmatched g ps) = mset (unmatched s ps)"
    by simp
  have ls: "length s = length ps + length (unmatched s ps)"
    unfolding ps by (rule length_split_unmatched) simp
  show ?thesis using eq ls by simp
qed

text \<open>
  Claim C6. For a guess and a secret of the same length the scorer returns a pair
  \<open>(greens, yellows)\<close> of non-negative counts whose sum is at most that length, and the
  sum is the length whenever the two words are anagrams of each other (as given, or
  after lowering, which is how the scorer compares them).
\<close>

theorem feedback_bounds:
  assumes "length guess = length secret"
  shows "\<exists>greens yellows.
           calculate_hurdle_feedback guess secret = Inr (greens, yellows)
           \<and> 0 \<le> greens \<and> 0 \<le> yellows
           \<and> greens + yellows \<le> int (length secret)
           \<and> (mset guess = mset secret \<longrightarrow> greens + yellows = int (length secret))
           \<and> (mset (lower guess) = mset (lower secret) \<longrightarrow> greens + yellows = int (length secret))"
proof -
  let ?g = "lower guess" and ?s = "lower secret"
  let ?ps = "green_positions ?g ?s"
  let ?y = "size (mset (unmatched ?g ?ps) \<inter># mset (unmatched ?s ?ps))"
  have bound: "length ?ps + ?y \<le> length secret"
    using feedback_sum_bounds [of ?g ?s] assms by (simp add: length_lower)
  have ana: "mset ?g = mset ?s \<Longrightarrow> length ?ps + ?y = length secret"
    using feedback_sum_anagram [of ?g ?s] by (simp add: length_lower)
  have low: "mset guess = mset secret \<Longrightarrow> mset ?g = mset ?s"
    by (simp add: lower_def)
  show ?thesis
    unfolding feedback_closed using bound ana low
    by (intro exI conjI impI) (auto simp only: prod.inject sum.inject of_nat_0_le_iff of_nat_add [symmetric] of_nat_le_iff of_nat_eq_iff)
qed

text \<open>The hypotheses of C6 hold at the guess \<open>Ab\<close> and the secret \<open>ba\<close>.\<close>

theorem feedback_bounds_witness:
  "length ''Ab'' = length ''ba'' \<and> mset (lower ''Ab'') = mset (lower ''ba'')
   \<and> (\<exists>greens yellows. calculate_hurdle_feedback ''Ab'' ''ba'' = Inr (greens, yellows)
         \<and> 0 \<le> greens \<and> 0 \<le> yellows \<and> greens + yellows = 2)"
  using feedback_bounds [of "''Ab''" "''ba''"]
  by (auto simp add: lower_def lower_char_def ascii_lowercase_def ascii_uppercase_def)

lemma feedback_returns:
  "\<exists>greens yellows.
     calculate_hurdle_feedback guess secret = Inr (greens, yellows)
     \<and> 0 \<le> greens \<and> 0 \<le> yellows
     \<and> greens + yellows \<le> int (min (length guess) (length secret))"
proof -
  let ?g = "lower guess" and ?s = "lower secret"
  let ?ps = "green_positions ?g ?s"
  let ?y = "size (mset (unmatched ?g ?ps) \<inter># mset (unmatched ?s ?ps))"
  have bound: "length ?ps + ?y \<le> min (length guess) (length secret)"
    using feedback_sum_bounds [of ?g ?s] by (simp add: length_lower)
  show ?thesis
    unfolding feedback_closed using bound
    by (intro exI conjI) (auto simp only: prod.inject sum.inject of_nat_0_le_iff of_nat_add [symmetric] of_nat_le_iff)
qed

text \<open>
  Claim C10. For a guess and a secret of any lengths the scorer returns a pair and never
  raises \<^verbatim>\<open>IndexError\<close>: every list read and write of the two passes is in range (the
  first pass runs over the positions below the smaller length), and the sum of the two
  counts is at most the smaller length.
\<close>

theorem feedback_total:
  "\<exists>greens yellows.
     calculate_hurdle_feedback guess secret = Inr (greens, yellows)
     \<and> 0 \<le> greens \<and> 0 \<le> yellows
     \<and> greens + yellows \<le> int (min (length guess) (length secret))"
  by (rule feedback_returns)

lemma ref_green_fold:
  "fold (\<lambda>i (greens, consumed_guess, consumed_secret).
             if guess ! i = secret ! i
             then (greens + 1, i # consumed_guess, i # consumed_secret)
             else (greens, consumed_guess, consumed_secret)) js (n, cg, cs)
   = (n + int (length (filter (\<lambda>i. guess ! i = secret ! i) js)),
      rev (filter (\<lambda>i. guess ! i = secret ! i) js) @ cg,
      rev (filter (\<lambda>i. guess ! i = secret ! i) js) @ cs)"
  by (induction js arbitrary: n cg cs) auto

lemma ref_green_pass_closed:
  "ref_green_pass L guess secret =
     (int (length (filter (\<lambda>i. guess ! i = secret ! i) [0 ..< L])),
      rev (filter (\<lambda>i. guess ! i = secret ! i) [0 ..< L]),
      rev (filter (\<lambda>i. guess ! i = secret ! i) [0 ..< L]))"
  unfolding ref_green_pass_def by (simp add: ref_green_fold)

lemma find_filter: "List.find P (filter Q xs) = List.find (\<lambda>x. Q x \<and> P x) xs"
  by (induction xs) auto

lemma ref_first_match_used:
  assumes "length su = L" "\<forall>j<L. su ! j = (j \<in> set cs)"
  shows "ref_first_match L secret cs c = List.find (\<lambda>j. \<not> su ! j \<and> secret ! j = c) [0 ..< L]"
  unfolding ref_first_match_def find_filter
  using assms by (intro find_cong) auto

lemma ref_yellow_scan:
  assumes "distinct js" "length su = length secret" "\<forall>j<length secret. su ! j = (j \<in> set cs)"
  shows "fst (ref_yellow_pass (length secret) guess secret js (n, cg, cs))
         = fst (yellow_scan secret (map ((!) guess) (filter (\<lambda>i. i \<notin> set cg) js)) (n, su))"
  using assms
proof (induction js arbitrary: n cg cs su)
  case Nil
  then show ?case by simp
next
  case (Cons i js)
  let ?L = "length secret"
  show ?case
  proof (cases "i \<in> set cg")
    case True
    with Cons show ?thesis by simp
  next
    case False
    have fm: "ref_first_match ?L secret cs (guess ! i)
              = List.find (\<lambda>j. \<not> su ! j \<and> secret ! j = guess ! i) [0 ..< ?L]"
      using Cons.prems by (intro ref_first_match_used) auto
    show ?thesis
    proof (cases "List.find (\<lambda>j. \<not> su ! j \<and> secret ! j = guess ! i) [0 ..< ?L]")
      case None
      with False fm Cons show ?thesis by simp
    next
      case (Some j)
      then have j: "j < ?L" by (auto simp: find_Some_iff)
      have inv: "\<forall>k<?L. su[j := True] ! k = (k \<in> set (j # cs))"
        using Cons.prems j by (auto simp: nth_list_update)
      have fl: "filter (\<lambda>k. k \<notin> set (i # cg)) js = filter (\<lambda>k. k \<notin> set cg) js"
        using Cons.prems by (intro filter_cong) auto
      have "fst (ref_yellow_pass ?L guess secret js (n + 1, i # cg, j # cs))
            = fst (yellow_scan secret (map ((!) guess) (filter (\<lambda>k. k \<notin> set (i # cg)) js)) (n + 1, su[j := True]))"
        using Cons.prems inv by (intro Cons.IH) auto
      with False fm Some fl show ?thesis by simp
    qed
  qed
qed

lemma ref_feedback_scan:
  assumes "length guess = length secret"
  shows "ref_feedback (length secret) guess secret =
         (int (length (green_positions guess secret)),
          fst (yellow_scan secret (unmatched guess (green_positions guess secret))
                 (0, mark (green_positions guess secret) (replicate (length secret) False))))"
proof -
  let ?L = "length secret"
  let ?ps = "green_positions guess secret"
  have ps: "?ps = filter (\<lambda>i. guess ! i = secret ! i) [0 ..< ?L]"
    using assms by (simp add: green_positions_def)
  have "fst (ref_yellow_pass ?L guess secret [0 ..< ?L] (0, rev ?ps, rev ?ps))
        = fst (yellow_scan secret (map ((!) guess) (filter (\<lambda>i. i \<notin> set (rev ?ps)) [0 ..< ?L]))
                 (0, mark ?ps (replicate ?L False)))"
    by (intro ref_yellow_scan) (auto simp: length_mark nth_mark)
  then show ?thesis
    unfolding ref_feedback_def ref_green_pass_closed ps [symmetric]
    using assms by (auto simp add: unmatched_def split: prod.splits)
qed

text \<open>
  Claim C1. For a guess and a secret of the same length \<open>L\<close> the scorer returns exactly
  the pair of the reference two-pass algorithm run on the lowered words; for words that
  are already lowercase this is the reference algorithm on the words themselves.
\<close>

theorem feedback_refines_reference:
  assumes "length guess = L" "length secret = L"
  shows "calculate_hurdle_feedback guess secret = Inr (ref_feedback L (lower guess) (lower secret))
         \<and> (lower guess = guess \<and> lower secret = secret
              \<longrightarrow> calculate_hurdle_feedback guess secret = Inr (ref_feedback L guess secret))"
proof -
  have "length (lower guess) = length (lower secret)" "length (lower secret) = L"
    using assms by (simp_all add: length_lower)
  then have "ref_feedback L (lower guess) (lower secret) =
         (int (length (green_positions (lower guess) (lower secret))),
          fst (yellow_scan (lower secret) (unmatched (lower guess) (green_positions (lower guess) (lower secret)))
                 (0, mark (green_positions (lower guess) (lower secret)) (replicate (length (lower secret)) False))))"
    using ref_feedback_scan [of "lower guess" "lower secret"] by simp
  then have "calculate_hurdle_feedback guess secret = Inr (ref_feedback L (lower guess) (lower secret))"
    by (simp only: feedback_scan)
  then show ?thesis by auto
qed

text \<open>The hypotheses of C1 hold at the guess \<open>apple\<close> and the secret \<open>plant\<close>.\<close>

theorem feedback_refines_reference_witness:
  "length ''apple'' = 5 \<and> length ''plant'' = 5
   \<and> lower ''apple'' = ''apple'' \<and> lower ''plant'' = ''plant''
   \<and> calculate_hurdle_feedback ''apple'' ''plant'' = Inr (ref_feedback 5 ''apple'' ''plant'')
   \<and> ref_feedback 5 ''apple'' ''plant'' = (0, 3)"
proof -
  have n: "lower ''apple'' = ''apple''" "lower ''plant'' = ''plant''"
    by (simp_all add: lower_def lower_char_def ascii_lowercase_def ascii_uppercase_def)
  have r: "ref_feedback 5 ''apple'' ''plant'' = (0, 3)"
    by code_simp
  show ?thesis
    using feedback_refines_reference [of "''apple''" 5 "''plant''"] n r by simp
qed

section \<open>Properties of the engine\<close>

lemma lower_char_idem: "lower_char (lower_char c) = lower_char c"
  by (simp add: lower_char_def ascii_lowercase_def ascii_uppercase_def)

lemma lower_idem: "lower (lower s) = lower s"
  by (simp add: lower_def lower_char_idem)

lemma upper_lower_char: "upper_char (lower_char c) = upper_char c"
  by (simp add: upper_char_def lower_char_def ascii_lowercase_def ascii_uppercase_def)

lemma upper_lower: "upper (lower s) = upper s"
  by (simp add: upper_def lower_def upper_lower_char)

lemma contains_append: "contains sub (pre @ sub @ post)"
proof (induction pre)
  case Nil
  show ?case
  proof (cases "sub @ post")
    case Nil
    then show ?thesis by simp
  next
    case (Cons a list)
    then have "prefix sub (a # list)" by (metis prefixI)
    with Cons show ?thesis by simp
  qed
next
  case (Cons a pre)
  then show ?case by simp
qed

lemma contains_iff: "contains sub s \<longleftrightarrow> (\<exists>pre post. s = pre @ sub @ post)"
proof
  show "contains sub s \<Longrightarrow> \<exists>pre post. s = pre @ sub @ post"
  proof (induction s)
    case Nil
    then show ?case by simp
  next
    case (Cons c cs)
    show ?case
    proof (cases "prefix sub (c # cs)")
      case True
      then obtain post where "c # cs = sub @ post" by (auto simp: prefix_def)
      then have "c # cs = [] @ sub @ post" by simp
      then show ?thesis by blast
    next
      case False
      with Cons obtain pre post where "cs = pre @ sub @ post" by auto
      then have "c # cs = (c # pre) @ sub @ post" by simp
      then show ?thesis by blast
    qed
  qed
next
  show "\<exists>pre post. s = pre @ sub @ post \<Longrightarrow> contains sub s"
    using contains_append by auto
qed

lemma step_invalid_format:
  assumes "re_search_bracket action = None"
  shows "step pct s action =
         Inr (invalid_move pct wrong_format_reason (add_observation action PLAYER_ACTION s))"
  using assms by (simp add: step_def)

lemma step_invalid_length:
  assumes "re_search_bracket action = Some tok" "int (length tok) \<noteq> word_length (game_state s)"
  shows "step pct s action =
         Inr (invalid_move pct (length_reason (word_length (game_state s)))
                (add_observation action PLAYER_ACTION s))"
  using assms by (simp add: step_def add_observation_def length_lower)

lemma invalid_move_effect:
  "invalid_move pct why s =
     (finished s,
      \<lparr>reason = Some why, reward = pct s, latest_observation = None\<rparr>,
      s\<lparr>error_allowance := error_allowance s - 1,
        rewards := Some (pct s),
        observations := observations s @ [(GAME_ADMIN, why)]\<rparr>)"
  by (simp add: invalid_move_def set_invalid_move_def state_step_def)

lemma step_scored:
  assumes "re_search_bracket action = Some tok" "int (length tok) = word_length (game_state s)"
    and "calculate_hurdle_feedback (lower tok) (secret_word (game_state s)) = Inr (g, y)"
  shows "step pct s action =
    (let word = lower tok;
         secret = secret_word (game_state s);
         s1 = add_observation action PLAYER_ACTION s;
         s2 = s1\<lparr>game_state := (game_state s)\<lparr>guess_history := guess_history (game_state s) @ [(word, g, y)]\<rparr>\<rparr>
     in if word = lower secret then
          Inr (True, \<lparr>reason = Some win_reason, reward = 1, latest_observation = None\<rparr>,
               set_outcome 1 win_reason
                 (add_observation (feedback_msg word g y @ [CHR 0x0A] @ win_reason) GAME_MESSAGE s2))
        else if num_guesses (game_state s) \<le> int (length (guess_history (game_state s))) + 1 then
          Inr (True, \<lparr>reason = Some (lose_reason secret), reward = 0, latest_observation = None\<rparr>,
               set_outcome 0 (lose_reason secret)
                 (add_observation (feedback_msg word g y @ [CHR 0x0A] @ lose_reason secret) GAME_MESSAGE s2))
        else
          Inr (finished s,
               \<lparr>reason = None, reward = 0.2 * real_of_int g + 0.1 * real_of_int y,
                latest_observation = Some (feedback_msg word g y)\<rparr>,
               add_observation (feedback_msg word g y) GAME_MESSAGE s2))"
  using assms
  by (simp add: step_def Let_def add_observation_def set_outcome_def state_step_def
                length_lower lower_idem)

text \<open>
  Claim C2. For a submission whose bracketed token has the word length: if the word
  equals the secret up to case, the turn is terminal with reward 1 and the outcome is
  set with reward 1 and the congratulation as reason (a win), whatever the number of
  earlier guesses; otherwise, if with this guess the history reaches (or exceeds) the
  number of guesses allowed, the turn is terminal with reward 0 and a reason that
  contains the secret in upper case (a loss). The win is decided first: the first part
  has no condition on the number of guesses.
\<close>

theorem step_win_or_lose:
  assumes "re_search_bracket action = Some tok"
    and "int (length tok) = word_length (game_state s)"
  shows "(lower tok = lower (secret_word (game_state s)) \<longrightarrow>
            (\<exists>s'. step pct s action =
                     Inr (True, \<lparr>reason = Some win_reason, reward = 1, latest_observation = None\<rparr>, s')
                   \<and> finished s' \<and> rewards s' = Some 1 \<and> outcome_reason s' = Some win_reason))
       \<and> (lower tok \<noteq> lower (secret_word (game_state s))
            \<and> num_guesses (game_state s) \<le> int (length (guess_history (game_state s))) + 1 \<longrightarrow>
            (\<exists>s'. step pct s action =
                     Inr (True, \<lparr>reason = Some (lose_reason (secret_word (game_state s))), reward = 0,
                                 latest_observation = None\<rparr>, s')
                   \<and> finished s' \<and> rewards s' = Some 0
                   \<and> outcome_reason s' = Some (lose_reason (secret_word (game_state s)))
                   \<and> contains (upper (secret_word (game_state s)))
                        (lose_reason (secret_word (game_state s)))))"
proof -
  obtain g y where gy: "calculate_hurdle_feedback (lower tok) (secret_word (game_state s)) = Inr (g, y)"
    using feedback_returns by blast
  have "lose_reason (secret_word (game_state s))
        = (''Game over! The word was '' @ [CHR 0x27]) @ upper (secret_word (game_state s))
          @ ([CHR 0x27] @ ''.'')"
    by (simp add: lose_reason_def)
  then have c: "contains (upper (secret_word (game_state s))) (lose_reason (secret_word (game_state s)))"
    by (simp only: contains_append)
  show ?thesis
    using c by (simp add: step_scored [OF assms gy] Let_def set_outcome_def add_observation_def)
qed

text \<open>
  The hypotheses of C2 hold for the secret \<open>ab\<close> with one guess allowed: \<open>[AB]\<close> wins
  and \<open>[cd]\<close> loses.
\<close>

theorem step_win_or_lose_witness:
  "re_search_bracket ''[AB]'' = Some ''AB'' \<and> re_search_bracket ''[cd]'' = Some ''cd''
   \<and> int (length ''AB'') = word_length (game_state (reset ''ab'' 2 1))
   \<and> lower ''AB'' = lower ''ab'' \<and> lower ''cd'' \<noteq> lower ''ab''
   \<and> num_guesses (game_state (reset ''ab'' 2 1))
        \<le> int (length (guess_history (game_state (reset ''ab'' 2 1)))) + 1
   \<and> (\<exists>s'. step no_completion (reset ''ab'' 2 1) ''[AB]''
             = Inr (True, \<lparr>reason = Some win_reason, reward = 1, latest_observation = None\<rparr>, s')
           \<and> finished s' \<and> rewards s' = Some 1)
   \<and> (\<exists>s'. step no_completion (reset ''ab'' 2 1) ''[cd]''
             = Inr (True, \<lparr>reason = Some (lose_reason ''ab''), reward = 0, latest_observation = None\<rparr>, s')
           \<and> finished s' \<and> rewards s' = Some 0)"
proof -
  have a: "re_search_bracket ''[AB]'' = Some ''AB''" by code_simp
  have b: "re_search_bracket ''[cd]'' = Some ''cd''" by code_simp
  have l: "int (length ''AB'') = word_length (game_state (reset ''ab'' 2 1))"
          "int (length ''cd'') = word_length (game_state (reset ''ab'' 2 1))"
    by (simp_all add: reset_def)
  have e: "lower ''AB'' = lower ''ab''" "lower ''cd'' \<noteq> lower ''ab''"
    by (simp_all add: lower_def lower_char_def ascii_lowercase_def ascii_uppercase_def)
  have m: "num_guesses (game_state (reset ''ab'' 2 1))
             \<le> int (length (guess_history (game_state (reset ''ab'' 2 1)))) + 1"
          "secret_word (game_state (reset ''ab'' 2 1)) = ''ab''"
    by (simp_all add: reset_def)
  show ?thesis
    using step_win_or_lose [OF a l(1), of no_completion]
          step_win_or_lose [OF b l(2), of no_completion] a b l e m
    by auto
qed

text \<open>
  Claim C3. A submission with no bracketed token of word characters, or whose token has
  not the word length, leaves the game state (secret, lengths, history) and the outcome
  as they are, appends nothing to the history, takes one unit of the error allowance,
  reports the turn terminal only if the episode already was, and gives as reason the
  wrong-format message, respectively the message that names the required length.
\<close>

theorem step_malformed:
  assumes "re_search_bracket action = None
           \<or> (\<exists>tok. re_search_bracket action = Some tok
                    \<and> int (length tok) \<noteq> word_length (game_state s))"
  shows "\<exists>i s'. step pct s action = Inr (finished s, i, s')
           \<and> game_state s' = game_state s
           \<and> guess_history (game_state s') = guess_history (game_state s)
           \<and> finished s' = finished s
           \<and> outcome_reason s' = outcome_reason s
           \<and> error_allowance s' = error_allowance s - 1
           \<and> latest_observation i = None
           \<and> reason i = Some (if re_search_bracket action = None then wrong_format_reason
                              else length_reason (word_length (game_state s)))
           \<and> contains ''wrong format'' wrong_format_reason
           \<and> contains (''exactly '' @ str_int (word_length (game_state s)) @ '' letters'')
                (length_reason (word_length (game_state s)))"
proof -
  have w: "contains ''wrong format'' wrong_format_reason"
  proof -
    have "wrong_format_reason
          = ''You tried submitting a word in the '' @ ''wrong format'' @ ''. Please make sure to use squared brackets.''"
      by (simp add: wrong_format_reason_def)
    then show ?thesis by (metis contains_append)
  qed
  have l: "contains (''exactly '' @ str_int (word_length (game_state s)) @ '' letters'')
                (length_reason (word_length (game_state s)))"
  proof -
    have "length_reason (word_length (game_state s))
          = ''Your word must be '' @ (''exactly '' @ str_int (word_length (game_state s)) @ '' letters'') @ ''.''"
      by (simp add: length_reason_def)
    then show ?thesis by (metis contains_append)
  qed
  from assms show ?thesis
  proof
    assume n: "re_search_bracket action = None"
    show ?thesis
      using w l n
      by (simp add: step_invalid_format [OF n] invalid_move_effect add_observation_def)
  next
    assume "\<exists>tok. re_search_bracket action = Some tok
                  \<and> int (length tok) \<noteq> word_length (game_state s)"
    then obtain tok where t: "re_search_bracket action = Some tok"
        "int (length tok) \<noteq> word_length (game_state s)" by blast
    show ?thesis
      using w l t
      by (simp add: step_invalid_length [OF t] invalid_move_effect add_observation_def)
  qed
qed

text \<open>
  The hypothesis of C3 holds for \<open>plant\<close> without brackets and for \<open>[plants]\<close>, at the
  start of an episode with a secret of five letters.
\<close>

theorem step_malformed_witness:
  "re_search_bracket ''plant'' = None
   \<and> re_search_bracket ''[plants]'' = Some ''plants''
   \<and> int (length ''plants'') \<noteq> word_length (game_state (reset ''plant'' 5 8))
   \<and> (\<exists>i s'. step no_completion (reset ''plant'' 5 8) ''plant'' = Inr (False, i, s')
         \<and> guess_history (game_state s') = [] \<and> \<not> finished s' \<and> error_allowance s' = 9
         \<and> reason i = Some wrong_format_reason)
   \<and> (\<exists>i s'. step no_completion (reset ''plant'' 5 8) ''[plants]'' = Inr (False, i, s')
         \<and> guess_history (game_state s') = [] \<and> \<not> finished s' \<and> error_allowance s' = 9
         \<and> reason i = Some (length_reason 5))"
proof -
  have a: "re_search_bracket ''plant'' = None" by code_simp
  have b: "re_search_bracket ''[plants]'' = Some ''plants''" by code_simp
  have c: "int (length ''plants'') \<noteq> word_length (game_state (reset ''plant'' 5 8))"
    by (simp add: reset_def)
  have r: "finished (reset ''plant'' 5 8) = False" "error_allowance (reset ''plant'' 5 8) = 10"
          "guess_history (game_state (reset ''plant'' 5 8)) = []"
          "word_length (game_state (reset ''plant'' 5 8)) = 5"
    by (simp_all add: reset_def)
  have h1: "re_search_bracket ''plant'' = None
            \<or> (\<exists>tok. re_search_bracket ''plant'' = Some tok
                     \<and> int (length tok) \<noteq> word_length (game_state (reset ''plant'' 5 8)))"
    using a by simp
  have h2: "re_search_bracket ''[plants]'' = None
            \<or> (\<exists>tok. re_search_bracket ''[plants]'' = Some tok
                     \<and> int (length tok) \<noteq> word_length (game_state (reset ''plant'' 5 8)))"
    using b c by simp
  show ?thesis
    using step_malformed [OF h1, of no_completion] step_malformed [OF h2, of no_completion]
          a b c r
    by auto
qed

lemma feedback_msg_contains_word:
  "contains (''['' @ upper tok @ '']'') (feedback_msg (lower tok) g y)"
proof -
  have "feedback_msg (lower tok) g y
        = ''You submitted '' @ (''['' @ upper tok @ '']'')
          @ (''.'' @ [CHR 0x0A] @ ''Feedback: greens: '' @ str_int g @ '', yellows: '' @ str_int y)"
    by (simp add: feedback_msg_def upper_lower)
  then show ?thesis by (metis contains_append)
qed

lemma feedback_msg_contains_counts:
  "contains (''Feedback: greens: '' @ str_int g @ '', yellows: '' @ str_int y) (feedback_msg word g y)"
proof -
  have "feedback_msg word g y
        = (''You submitted ['' @ upper word @ ''].'' @ [CHR 0x0A])
          @ (''Feedback: greens: '' @ str_int g @ '', yellows: '' @ str_int y) @ []"
    by (simp add: feedback_msg_def)
  then show ?thesis by (metis contains_append)
qed

text \<open>
  Claim C5, as the code has it. In an episode whose outcome has not been set, a
  submission whose bracketed token has the word length, is not the secret and leaves the
  history shorter than the number of guesses allowed is not terminal; its reward is
  \<open>0.2 * greens + 0.1 * yellows\<close> for the counts of the scorer, a number between 0 and
  \<open>0.3 * L\<close>; and the message it emits contains the submitted word in upper case between
  square brackets and the text \<open>Feedback: greens: g, yellows: y\<close> with those counts.
\<close>

theorem step_continue:
  assumes "re_search_bracket action = Some tok"
    and "int (length tok) = word_length (game_state s)"
    and "lower tok \<noteq> lower (secret_word (game_state s))"
    and "int (length (guess_history (game_state s))) + 1 < num_guesses (game_state s)"
    and "\<not> finished s"
  shows "\<exists>g y s'.
           calculate_hurdle_feedback (lower tok) (secret_word (game_state s)) = Inr (g, y)
           \<and> step pct s action =
               Inr (False,
                    \<lparr>reason = None, reward = 0.2 * real_of_int g + 0.1 * real_of_int y,
                     latest_observation = Some (feedback_msg (lower tok) g y)\<rparr>, s')
           \<and> 0 \<le> 0.2 * real_of_int g + 0.1 * real_of_int y
           \<and> 0.2 * real_of_int g + 0.1 * real_of_int y
                \<le> real_of_int (word_length (game_state s)) * 0.3
           \<and> contains (''['' @ upper tok @ '']'') (feedback_msg (lower tok) g y)
           \<and> contains (''Feedback: greens: '' @ str_int g @ '', yellows: '' @ str_int y)
                (feedback_msg (lower tok) g y)
           \<and> guess_history (game_state s') = guess_history (game_state s) @ [(lower tok, g, y)]
           \<and> \<not> finished s'"
proof -
  obtain g y where gy: "calculate_hurdle_feedback (lower tok) (secret_word (game_state s)) = Inr (g, y)"
    and b: "0 \<le> g" "0 \<le> y"
           "g + y \<le> int (min (length (lower tok)) (length (secret_word (game_state s))))"
    using feedback_returns by blast
  have "g + y \<le> word_length (game_state s)"
    using b(3) assms(2) by (simp add: length_lower)
  then have r: "0 \<le> 0.2 * real_of_int g + 0.1 * real_of_int y"
    "0.2 * real_of_int g + 0.1 * real_of_int y \<le> real_of_int (word_length (game_state s)) * 0.3"
    using b(1,2) by simp_all
  define s' where "s' = add_observation (feedback_msg (lower tok) g y) GAME_MESSAGE
                      ((add_observation action PLAYER_ACTION s)
                         \<lparr>game_state := (game_state s)
                            \<lparr>guess_history := guess_history (game_state s) @ [(lower tok, g, y)]\<rparr>\<rparr>)"
  have st: "step pct s action =
               Inr (False,
                    \<lparr>reason = None, reward = 0.2 * real_of_int g + 0.1 * real_of_int y,
                     latest_observation = Some (feedback_msg (lower tok) g y)\<rparr>, s')"
    using assms(3,4,5) by (simp add: step_scored [OF assms(1,2) gy] Let_def s'_def)
  have h: "guess_history (game_state s') = guess_history (game_state s) @ [(lower tok, g, y)]"
    and f: "\<not> finished s'"
    using assms(5) by (simp_all add: s'_def add_observation_def)
  have "calculate_hurdle_feedback (lower tok) (secret_word (game_state s)) = Inr (g, y)
           \<and> step pct s action =
               Inr (False,
                    \<lparr>reason = None, reward = 0.2 * real_of_int g + 0.1 * real_of_int y,
                     latest_observation = Some (feedback_msg (lower tok) g y)\<rparr>, s')
           \<and> 0 \<le> 0.2 * real_of_int g + 0.1 * real_of_int y
           \<and> 0.2 * real_of_int g + 0.1 * real_of_int y
                \<le> real_of_int (word_length (game_state s)) * 0.3
           \<and> contains (''['' @ upper tok @ '']'') (feedback_msg (lower tok) g y)
           \<and> contains (''Feedback: greens: '' @ str_int g @ '', yellows: '' @ str_int y)
                (feedback_msg (lower tok) g y)
           \<and> guess_history (game_state s') = guess_history (game_state s) @ [(lower tok, g, y)]
           \<and> \<not> finished s'"
    using gy st r h f feedback_msg_contains_word [of tok g y]
          feedback_msg_contains_counts [of g y "lower tok"]
    by (intro conjI)
  then show ?thesis by blast
qed

text \<open>
  The hypotheses of C5 hold at the start of an episode with the secret \<open>ab\<close> and two
  guesses for the submission \<open>[Ac]\<close>, which scores one green.
\<close>

theorem step_continue_witness:
  "re_search_bracket ''[Ac]'' = Some ''Ac''
   \<and> int (length ''Ac'') = word_length (game_state (reset ''ab'' 2 2))
   \<and> lower ''Ac'' \<noteq> lower (secret_word (game_state (reset ''ab'' 2 2)))
   \<and> int (length (guess_history (game_state (reset ''ab'' 2 2)))) + 1
        < num_guesses (game_state (reset ''ab'' 2 2))
   \<and> \<not> finished (reset ''ab'' 2 2)
   \<and> (\<exists>g y s'. calculate_hurdle_feedback (lower ''Ac'') ''ab'' = Inr (g, y)
         \<and> step no_completion (reset ''ab'' 2 2) ''[Ac]''
             = Inr (False,
                    \<lparr>reason = None, reward = 0.2 * real_of_int g + 0.1 * real_of_int y,
                     latest_observation = Some (feedback_msg (lower ''Ac'') g y)\<rparr>, s')
         \<and> contains ''[AC]'' (feedback_msg (lower ''Ac'') g y))"
proof -
  have a: "re_search_bracket ''[Ac]'' = Some ''Ac''" by code_simp
  have l: "int (length ''Ac'') = word_length (game_state (reset ''ab'' 2 2))"
    by (simp add: reset_def)
  have e: "lower ''Ac'' \<noteq> lower (secret_word (game_state (reset ''ab'' 2 2)))"
    by (simp add: reset_def lower_def lower_char_def ascii_lowercase_def ascii_uppercase_def)
  have m: "int (length (guess_history (game_state (reset ''ab'' 2 2)))) + 1
             < num_guesses (game_state (reset ''ab'' 2 2))"
    by (simp add: reset_def)
  have f: "\<not> finished (reset ''ab'' 2 2)" by (simp add: reset_def)
  have s: "secret_word (game_state (reset ''ab'' 2 2)) = ''ab''" by (simp add: reset_def)
  have u: "''['' @ upper ''Ac'' @ '']'' = ''[AC]''"
    by (simp add: upper_def upper_char_def ascii_lowercase_def ascii_uppercase_def)
  show ?thesis
    using step_continue [OF a l e m f, of no_completion] a l e m f
    unfolding s u by blast
qed

text \<open>
  Claim C5, as the specification states it, fails: \<^verbatim>\<open>step\<close> does not look at the
  outcome before it scores, and what it returns as \<^verbatim>\<open>is_done\<close> is the terminal flag
  of the episode. With the secret \<open>ab\<close> and three guesses, the submission \<open>[ab]\<close> wins
  and sets the outcome. The next submission \<open>[cd]\<close> has a bracketed token of the word
  length that is not the secret, and it leaves a history of two records, fewer than
  three; yet it is reported terminal.
\<close>

theorem step_continue_counterexample:
  "map_sum id finished (run no_completion (reset ''ab'' 2 3) [''[ab]'']) = Inr True
   \<and> map_sum id history_length (run no_completion (reset ''ab'' 2 3) [''[ab]'']) = Inr 1
   \<and> re_search_bracket ''[cd]'' = Some ''cd''
   \<and> int (length ''cd'') = word_length (game_state (reset ''ab'' 2 3))
   \<and> lower ''cd'' \<noteq> lower (secret_word (game_state (reset ''ab'' 2 3)))
   \<and> map_sum id history_length (run no_completion (reset ''ab'' 2 3) [''[ab]'', ''[cd]'']) = Inr 2
   \<and> int 2 < num_guesses (game_state (reset ''ab'' 2 3))
   \<and> map_sum id fst (step_after no_completion (reset ''ab'' 2 3) [''[ab]''] ''[cd]'') = Inr True"
  by code_simp

lemma step_total: "\<exists>d i s'. step pct s a = Inr (d, i, s')"
proof (cases "re_search_bracket a")
  case None
  then show ?thesis
    by (simp add: step_invalid_format invalid_move_effect)
next
  case (Some tok)
  show ?thesis
  proof (cases "int (length tok) = word_length (game_state s)")
    case False
    with Some show ?thesis
      by (simp add: step_invalid_length invalid_move_effect)
  next
    case True
    obtain g y where gy: "calculate_hurdle_feedback (lower tok) (secret_word (game_state s)) = Inr (g, y)"
      using feedback_returns by blast
    show ?thesis
      by (auto simp add: step_scored [OF Some True gy] Let_def)
  qed
qed

lemma step_invalid_effect:
  assumes "re_search_bracket a = None
           \<or> (\<exists>tok. re_search_bracket a = Some tok \<and> int (length tok) \<noteq> word_length (game_state s))"
    and "step pct s a = Inr (d, i, s')"
  shows "game_state s' = game_state s \<and> finished s' = finished s \<and> d = finished s'"
proof -
  from assms(1) show ?thesis
  proof
    assume n: "re_search_bracket a = None"
    show ?thesis
      using assms(2) unfolding step_invalid_format [OF n] invalid_move_effect
      by (auto simp: add_observation_def)
  next
    assume "\<exists>tok. re_search_bracket a = Some tok \<and> int (length tok) \<noteq> word_length (game_state s)"
    then obtain tok where t: "re_search_bracket a = Some tok"
      "int (length tok) \<noteq> word_length (game_state s)" by blast
    show ?thesis
      using assms(2) unfolding step_invalid_length [OF t] invalid_move_effect
      by (auto simp: add_observation_def)
  qed
qed

lemma step_scored_effect:
  assumes "re_search_bracket a = Some tok" "int (length tok) = word_length (game_state s)"
    and "step pct s a = Inr (d, i, s')"
  shows "num_guesses (game_state s') = num_guesses (game_state s)
         \<and> history_length s' = history_length s + 1
         \<and> finished s' = (finished s \<or> lower tok = lower (secret_word (game_state s))
                           \<or> num_guesses (game_state s) \<le> int (history_length s) + 1)
         \<and> d = finished s'"
proof -
  obtain g y where gy: "calculate_hurdle_feedback (lower tok) (secret_word (game_state s)) = Inr (g, y)"
    using feedback_returns by blast
  note sc = step_scored [OF assms(1,2) gy, of pct]
  show ?thesis
  proof (cases "lower tok = lower (secret_word (game_state s))")
    case True
    then show ?thesis
      using assms(3) unfolding sc Let_def
      by (auto simp: set_outcome_def add_observation_def history_length_def)
  next
    case False
    note neq = this
    show ?thesis
    proof (cases "num_guesses (game_state s) \<le> int (length (guess_history (game_state s))) + 1")
      case True
      then show ?thesis
        using assms(3) neq unfolding sc Let_def
        by (auto simp: set_outcome_def add_observation_def history_length_def)
    next
      case False
      then show ?thesis
        using assms(3) neq unfolding sc Let_def
        by (auto simp: add_observation_def history_length_def)
    qed
  qed
qed

lemma step_preserves:
  assumes "step pct s a = Inr (d, i, s')"
  shows "num_guesses (game_state s') = num_guesses (game_state s)"
    and "d = finished s'"
    and "finished s \<Longrightarrow> finished s'"
    and "\<not> finished s \<Longrightarrow> int (history_length s) < num_guesses (game_state s)
         \<Longrightarrow> int (history_length s') \<le> num_guesses (game_state s)
             \<and> (\<not> finished s' \<longrightarrow> int (history_length s') < num_guesses (game_state s))"
proof -
  have "num_guesses (game_state s') = num_guesses (game_state s)
        \<and> d = finished s'
        \<and> (finished s \<longrightarrow> finished s')
        \<and> (\<not> finished s \<and> int (history_length s) < num_guesses (game_state s)
             \<longrightarrow> int (history_length s') \<le> num_guesses (game_state s)
                 \<and> (\<not> finished s' \<longrightarrow> int (history_length s') < num_guesses (game_state s)))"
  proof (cases "\<exists>tok. re_search_bracket a = Some tok \<and> int (length tok) = word_length (game_state s)")
    case True
    then obtain tok where t: "re_search_bracket a = Some tok"
      "int (length tok) = word_length (game_state s)" by blast
    from step_scored_effect [OF t assms] show ?thesis by auto
  next
    case False
    then have "re_search_bracket a = None
           \<or> (\<exists>tok. re_search_bracket a = Some tok \<and> int (length tok) \<noteq> word_length (game_state s))"
      by (cases "re_search_bracket a") auto
    from step_invalid_effect [OF this assms] show ?thesis
      by (simp add: history_length_def)
  qed
  then show "num_guesses (game_state s') = num_guesses (game_state s)"
    and "d = finished s'"
    and "finished s \<Longrightarrow> finished s'"
    and "\<not> finished s \<Longrightarrow> int (history_length s) < num_guesses (game_state s)
         \<Longrightarrow> int (history_length s') \<le> num_guesses (game_state s)
             \<and> (\<not> finished s' \<longrightarrow> int (history_length s') < num_guesses (game_state s))"
    by blast+
qed

lemma play_bound:
  assumes "\<not> finished s" "int (history_length s) < num_guesses (game_state s)"
  shows "\<exists>s'. play pct s acts = Inr s'
              \<and> int (history_length s') \<le> num_guesses (game_state s)"
  using assms
proof (induction acts arbitrary: s)
  case Nil
  then show ?case by simp
next
  case (Cons a acts)
  obtain d i s1 where st: "step pct s a = Inr (d, i, s1)"
    using step_total by blast
  note p = step_preserves [OF st]
  show ?case
  proof (cases d)
    case True
    then show ?thesis using st p(4) Cons.prems by simp
  next
    case False
    then have nf: "\<not> finished s1" using p(2) by simp
    then have lt: "int (history_length s1) < num_guesses (game_state s1)"
      using p(1) p(4) Cons.prems by simp
    from Cons.IH [OF nf lt] obtain s' where
      "play pct s1 acts = Inr s'" "int (history_length s') \<le> num_guesses (game_state s1)"
      by blast
    then show ?thesis using st False p(1) by simp
  qed
qed

text \<open>
  Claim C4, as the code has it. From the start of an episode with at least one guess
  allowed, whatever is submitted while no turn has been reported terminal, every
  submission returns and the history never holds more than the allowed number of
  guesses. Once the outcome is set, every further submission is reported terminal and
  the outcome stays set.
\<close>

theorem play_history_bound:
  assumes "1 \<le> M"
  shows "(\<exists>s. play pct (reset secret L M) acts = Inr s \<and> int (history_length s) \<le> M)
       \<and> (\<forall>(s::state) a. finished s \<longrightarrow> (\<exists>i s'. step pct s a = Inr (True, i, s') \<and> finished s'))"
proof
  have "\<not> finished (reset secret L M)"
       "int (history_length (reset secret L M)) < num_guesses (game_state (reset secret L M))"
    using assms by (simp_all add: reset_def history_length_def)
  from play_bound [OF this, of pct acts]
  show "\<exists>s. play pct (reset secret L M) acts = Inr s \<and> int (history_length s) \<le> M"
    by (simp add: reset_def)
next
  show "\<forall>(s::state) a. finished s \<longrightarrow> (\<exists>i s'. step pct s a = Inr (True, i, s') \<and> finished s')"
  proof (intro allI impI)
    fix s :: state and a
    assume f: "finished s"
    obtain d i s1 where st: "step pct s a = Inr (d, i, s1)"
      using step_total by blast
    have "finished s1" "d" using step_preserves(2,3) [OF st] f by simp_all
    with st show "\<exists>i s'. step pct s a = Inr (True, i, s') \<and> finished s'" by auto
  qed
qed

text \<open>
  The hypotheses hold for the secret \<open>ab\<close> with two guesses: a wrong guess, a malformed
  submission and the right guess are played, and a state whose outcome is set answers
  a further submission as terminal.
\<close>

theorem play_history_bound_witness:
  "(1::int) \<le> 2
   \<and> (\<exists>s. play no_completion (reset ''ab'' 2 2) [''[cd]'', ''zz'', ''[ab]'', ''[cd]''] = Inr s
          \<and> int (history_length s) \<le> 2)
   \<and> finished (set_outcome 1 win_reason (reset ''ab'' 2 2))
   \<and> (\<exists>i s'. step no_completion (set_outcome 1 win_reason (reset ''ab'' 2 2)) ''[cd]''
               = Inr (True, i, s') \<and> finished s')"
proof -
  have h: "(1::int) \<le> 2" by simp
  have f: "finished (set_outcome 1 win_reason (reset ''ab'' 2 2))"
    by (simp add: set_outcome_def)
  note t = play_history_bound [OF h, of no_completion "''ab''" 2
             "[''[cd]'', ''zz'', ''[ab]'', ''[cd]'']"]
  have a: "\<exists>s. play no_completion (reset ''ab'' 2 2) [''[cd]'', ''zz'', ''[ab]'', ''[cd]''] = Inr s
          \<and> int (history_length s) \<le> 2"
    using t by (rule conjunct1)
  have b: "\<forall>(s::state) a. finished s
             \<longrightarrow> (\<exists>i s'. step no_completion s a = Inr (True, i, s') \<and> finished s')"
    using t by (rule conjunct2)
  have c: "\<exists>i s'. step no_completion (set_outcome 1 win_reason (reset ''ab'' 2 2)) ''[cd]''
               = Inr (True, i, s') \<and> finished s'"
    using b [rule_format, OF f] .
  show ?thesis
    using h a f c by (intro conjI)
qed

text \<open>
  Claim C4, as the specification states it, fails: \<^verbatim>\<open>step\<close> does not look at the
  outcome before it scores and appends. With the secret \<open>plant\<close> and eight guesses, eight
  wrong guesses set the outcome with a history of eight records, and a ninth submission
  appends a ninth record.
\<close>

theorem history_bound_counterexample:
  "map_sum id finished (run no_completion (reset ''plant'' 5 8) (replicate 8 ''[crane]'')) = Inr True
   \<and> map_sum id history_length (run no_completion (reset ''plant'' 5 8) (replicate 8 ''[crane]'')) = Inr 8
   \<and> map_sum id history_length (run no_completion (reset ''plant'' 5 8) (replicate 9 ''[crane]'')) = Inr 9
   \<and> \<not> int 9 \<le> num_guesses (game_state (reset ''plant'' 5 8))"
  by code_simp

section \<open>Properties of the reward functions\<close>

text \<open>
  Claim C7. The correctness reward compares the answer the parser yields with the secret
  between square brackets, character by character and without lowering either side
  (line 48), whereas the engine lowers the bracketed token and the secret before it
  compares them (lines 160 and 180). For the secret \<open>plant\<close> the answer \<open>[plant]\<close> gets
  the reward 1, and the answer \<open>[PLANT]\<close> gets the reward 0, although the engine takes
  the same text as a guess equal to the secret: its bracketed token, lowered, is the
  secret, and \<^verbatim>\<open>step\<close> reports a win with the reward 1.
\<close>

theorem check_answer_case_divergence:
  "check_answer_reward_func (answer_is ''[PLANT]'') plant_upper_example ''plant'' = 0
   \<and> map_option lower (re_search_bracket ''[PLANT]'') = Some ''plant''
   \<and> map_sum id fst (step no_completion (reset ''plant'' 5 8) ''[PLANT]'') = Inr True
   \<and> map_sum id (reward \<circ> fst \<circ> snd) (step no_completion (reset ''plant'' 5 8) ''[PLANT]'') = Inr 1
   \<and> check_answer_reward_func (answer_is ''[plant]'') plant_lower_example ''plant'' = 1"
  by code_simp

lemma count_turns_denominator:
  "(let assistant_messages = filter (\<lambda>x. role x = ''assistant'') completion;
        num_turns = int (length assistant_messages)
    in (if num_turns > 0
           \<and> contains ''Welcome to Hurdle Wordle!'' (content (hd assistant_messages))
        then num_turns - 1 else num_turns))
   = int (length (guessing_turns completion))"
  by (cases "filter (\<lambda>x. role x = ''assistant'') completion")
     (simp_all add: guessing_turns_def Let_def)

text \<open>
  Claim C8. The efficiency reward is the correctness reward divided by the number of
  guessing turns plus one, where the guessing turns are the turns of the assistant
  without a leading welcome turn; it is 0 when the final answer is not the secret in
  brackets; and on the transcript of the repository's test (a welcome turn and two
  guessing turns, the second one right) it is one third.
\<close>

theorem count_turns_formula:
  "count_turns_reward_func parse_answer completion answer
     = check_answer_reward_func parse_answer completion answer
       / (real (length (guessing_turns completion)) + 1)
   \<and> (parse_answer completion \<noteq> Some (''['' @ answer @ '']'')
         \<longrightarrow> count_turns_reward_func parse_answer completion answer = 0)
   \<and> length (guessing_turns count_turns_example) = 2
   \<and> (parse_answer count_turns_example = Some ''[plant]''
         \<longrightarrow> count_turns_reward_func parse_answer count_turns_example ''plant'' = 1 / 3
             \<and> \<bar>count_turns_reward_func parse_answer count_turns_example ''plant'' - 1 / 3\<bar> < 0.001)"
proof -
  have f: "count_turns_reward_func parse_answer c a
           = check_answer_reward_func parse_answer c a / (real (length (guessing_turns c)) + 1)"
    for c a
    using count_turns_denominator [of c]
    by (simp add: count_turns_reward_func_def Let_def)
  have n: "length (guessing_turns count_turns_example) = 2"
    by code_simp
  show ?thesis
    unfolding f n by (simp add: check_answer_reward_func_def)
qed

text \<open>The hypotheses hold for a parser that yields \<open>[plant]\<close>, and for the answer \<open>wrong\<close>.\<close>

theorem count_turns_formula_witness:
  "(\<lambda>c. Some ''[plant]'') count_turns_example = Some ''[plant]''
   \<and> count_turns_reward_func (\<lambda>c. Some ''[plant]'') count_turns_example ''plant'' = 1 / 3
   \<and> (\<lambda>c. Some ''[plant]'') count_turns_example \<noteq> Some (''['' @ ''wrong'' @ '']'')
   \<and> count_turns_reward_func (\<lambda>c. Some ''[plant]'') count_turns_example ''wrong'' = 0"
proof -
  note a = count_turns_formula [of "\<lambda>c. Some ''[plant]''" count_turns_example "''plant''"]
  note b = count_turns_formula [of "\<lambda>c. Some ''[plant]''" count_turns_example "''wrong''"]
  have p: "(\<lambda>c. Some ''[plant]'') count_turns_example = Some ''[plant]''" by simp
  have q: "(\<lambda>c. Some ''[plant]'') count_turns_example \<noteq> Some (''['' @ ''wrong'' @ '']'')" by simp
  have r1: "count_turns_reward_func (\<lambda>c. Some ''[plant]'') count_turns_example ''plant'' = 1 / 3"
    using a p by blast
  have r2: "count_turns_reward_func (\<lambda>c. Some ''[plant]'') count_turns_example ''wrong'' = 0"
    using b q by blast
  show ?thesis using p q r1 r2 by (intro conjI)
qed

lemma digits_nth: "d < 10 \<Longrightarrow> is_digit (digits ! d) \<and> digit_val (digits ! d) = int d"
proof -
  assume "d < 10"
  then have "d = 0 \<or> d = 1 \<or> d = 2 \<or> d = 3 \<or> d = 4 \<or> d = 5 \<or> d = 6 \<or> d = 7 \<or> d = 8 \<or> d = 9"
    by arith
  then show ?thesis
    by (elim disjE) (simp_all add: is_digit_def digit_val_def digits_def upt_conv_Cons)
qed

lemma is_digit_cases:
  "is_digit c \<Longrightarrow> \<not> is_space c \<and> c \<noteq> CHR ''F'' \<and> c \<noteq> CHR ''y'' \<and> c \<noteq> CHR '',''"
  by (auto simp: is_digit_def is_space_def digits_def)

declare str_nat.simps [simp del]

lemma str_nat_digits: "str_nat n \<noteq> [] \<and> (\<forall>c\<in>set (str_nat n). is_digit c)"
proof (induction n rule: str_nat.induct)
  case (1 n)
  show ?case
  proof (cases "n < 10")
    case True
    then show ?thesis
      by (subst (1 2) str_nat.simps) (simp add: digits_nth)
  next
    case False
    have "is_digit (digits ! (n mod 10))" by (simp add: digits_nth)
    with False 1 show ?thesis
      by (subst (1 2) str_nat.simps) simp
  qed
qed

lemma int_of_digits_snoc: "int_of_digits (ds @ [c]) = 10 * int_of_digits ds + digit_val c"
  by (simp add: int_of_digits_def)

lemma int_of_digits_str_nat: "int_of_digits (str_nat n) = int n"
proof (induction n rule: str_nat.induct)
  case (1 n)
  show ?case
  proof (cases "n < 10")
    case True
    then show ?thesis
      by (subst str_nat.simps) (simp add: int_of_digits_def digits_nth)
  next
    case False
    have "digit_val (digits ! (n mod 10)) = int (n mod 10)" by (simp add: digits_nth)
    moreover have "10 * int (n div 10) + int (n mod 10) = int n" by presburger
    ultimately show ?thesis
      using False 1 by (subst str_nat.simps) (simp add: int_of_digits_snoc)
  qed
qed

lemma str_int_nonneg: "0 \<le> i \<Longrightarrow> str_int i = str_nat (nat i)"
  by (simp add: str_int_def)

lemma upper_char_not_e: "upper_char c \<noteq> CHR ''e''"
  by (simp add: upper_char_def ascii_lowercase_def ascii_uppercase_def)

lemma strip_id:
  assumes "s \<noteq> []" "\<not> is_space (hd s)" "\<not> is_space (last s)"
  shows "strip s = s"
proof -
  have a: "dropWhile is_space s = s"
    using assms(1,2) by (cases s) simp_all
  obtain xs x where s: "s = xs @ [x]"
    using assms(1) by (cases s rule: rev_cases) auto
  have b: "dropWhile is_space (rev s) = rev s"
    using assms(3) by (simp add: s)
  show ?thesis by (simp add: strip_def a b)
qed

lemma strip_space_Cons: "is_space c \<Longrightarrow> strip (c # s) = strip s"
  by (simp add: strip_def)

lemma split_from_no_head:
  assumes "sep \<noteq> []" "hd sep \<notin> set s"
  shows "split_from sep cur s = [cur @ s]"
  using assms
proof (induction s arbitrary: cur)
  case Nil
  then show ?case by simp
next
  case (Cons c cs)
  then have "\<not> prefix sep (c # cs)" by (cases sep) auto
  with Cons show ?case by simp
qed

lemma split_from_skip_head:
  assumes "sep \<noteq> []" "hd sep \<notin> set pre"
  shows "split_from sep cur (pre @ rest) = split_from sep (cur @ pre) rest"
  using assms
proof (induction pre arbitrary: cur)
  case Nil
  then show ?case by simp
next
  case (Cons c cs)
  then have "\<not> prefix sep (c # cs @ rest)" by (cases sep) auto
  with Cons show ?case by simp
qed

lemma split_from_skip_second:
  assumes "b \<notin> set pre" "r \<noteq> b"
  shows "split_from (a # b # sep) cur (pre @ r # rest) = split_from (a # b # sep) (cur @ pre) (r # rest)"
  using assms
proof (induction pre arbitrary: cur)
  case Nil
  then show ?case by simp
next
  case (Cons c cs)
  have np: "\<not> prefix (a # b # sep) (c # cs @ r # rest)"
    using Cons.prems by (cases cs) simp_all
  have "split_from (a # b # sep) cur ((c # cs) @ r # rest)
        = split_from (a # b # sep) (cur @ [c]) (cs @ r # rest)"
    using np by (simp only: append_Cons split_from.simps) simp
  also have "\<dots> = split_from (a # b # sep) ((cur @ [c]) @ cs) (r # rest)"
    using Cons.prems by (intro Cons.IH) simp_all
  finally show ?case by simp
qed

lemma split_from_at_sep:
  assumes "sep \<noteq> []"
  shows "split_from sep cur (sep @ rest) = cur # split_from sep [] rest"
proof (cases sep)
  case Nil
  with assms show ?thesis by simp
next
  case (Cons a as)
  then show ?thesis by simp
qed

lemma re_search_count_skip:
  assumes "key \<noteq> []" "hd key \<notin> set pre"
  shows "re_search_count key (pre @ rest) = re_search_count key rest"
  using assms
proof (induction pre)
  case Nil
  then show ?case by simp
next
  case (Cons c cs)
  then have "\<not> prefix key (c # cs @ rest)" by (cases key) auto
  with Cons show ?case by simp
qed

lemma re_search_count_here:
  assumes "ds \<noteq> []" "\<forall>c\<in>set ds. is_digit c" "rest = [] \<or> \<not> is_digit (hd rest)"
    and "key \<noteq> []" "\<forall>c\<in>set ws. is_space c"
  shows "re_search_count key (key @ ws @ ds @ rest) = Some ds"
proof -
  have d0: "\<not> is_space (hd ds)" using assms(1,2) is_digit_cases by (cases ds) auto
  have dw: "dropWhile is_space (ws @ ds @ rest) = ds @ rest"
    using assms(1,5) d0 by (cases ds) (simp_all add: dropWhile_append2)
  have tw: "takeWhile is_digit (ds @ rest) = ds"
    using assms(2,3) by (cases rest) (simp_all add: takeWhile_tail)
  obtain k ks where k: "key = k # ks" using assms(4) by (cases key) auto
  have "re_search_count key ((k # ks) @ ws @ ds @ rest) = Some ds"
    using dw tw assms(1) by (simp add: k)
  then show ?thesis by (simp add: k)
qed

lemma str_nat_last: "is_digit (last (str_nat n))"
  using str_nat_digits [of n] by simp

lemma str_nat_no_char:
  assumes "\<not> is_digit c"
  shows "c \<notin> set (str_nat n)"
  using str_nat_digits [of n] assms by auto

lemma not_digit_chars:
  "\<not> is_digit CHR ''F''" "\<not> is_digit CHR ''y''" "\<not> is_digit CHR '',''"
  by (simp_all add: is_digit_def digits_def)

lemma feedback_line_parse:
  fixes Sg Sy :: string
  assumes g: "Sg \<noteq> []" "\<forall>c\<in>set Sg. is_digit c" and y: "Sy \<noteq> []" "\<forall>c\<in>set Sy. is_digit c"
  defines "line \<equiv> ''greens: '' @ Sg @ '', yellows: '' @ Sy"
  shows "strip ('' '' @ line) = line"
    and "re_search_count ''greens:'' line = Some Sg"
    and "re_search_count ''yellows:'' line = Some Sy"
proof -
  have ly: "\<not> is_space (last Sy)"
    using y is_digit_cases by (metis last_in_set)
  have "strip ('' '' @ line) = strip line"
    by (simp add: strip_space_Cons is_space_def)
  also have "strip line = line"
    using y(1) ly by (intro strip_id) (simp_all add: line_def is_space_def)
  finally show "strip ('' '' @ line) = line" .
  have "re_search_count ''greens:'' (''greens:'' @ '' '' @ Sg @ ('', yellows: '' @ Sy)) = Some Sg"
    using g by (intro re_search_count_here) (simp_all add: is_digit_def digits_def is_space_def)
  then show "re_search_count ''greens:'' line = Some Sg"
    by (simp add: line_def)
  have ny: "CHR ''y'' \<notin> set (''greens: '' @ Sg @ '', '')"
    using g(2) not_digit_chars(2) by auto
  have "re_search_count ''yellows:'' ((''greens: '' @ Sg @ '', '') @ (''yellows:'' @ '' '' @ Sy @ []))
        = re_search_count ''yellows:'' (''yellows:'' @ '' '' @ Sy @ [])"
    using ny by (intro re_search_count_skip) simp_all
  also have "\<dots> = Some Sy"
    using y by (intro re_search_count_here) (simp_all add: is_space_def)
  finally show "re_search_count ''yellows:'' line = Some Sy"
    by (simp add: line_def)
qed

lemma feedback_msg_split:
  fixes Sg Sy W :: string
  assumes "\<forall>c\<in>set Sg. is_digit c" "\<forall>c\<in>set Sy. is_digit c" "CHR ''e'' \<notin> set W"
  shows "split (''You submitted ['' @ W @ ''].'' @ [CHR 0x0A] @ ''Feedback: greens: '' @ Sg @ '', yellows: '' @ Sy)
               ''Feedback:''
         = [''You submitted ['' @ W @ ''].'' @ [CHR 0x0A], '' greens: '' @ Sg @ '', yellows: '' @ Sy]"
proof -
  let ?sep = "''Feedback:''"
  let ?tail = "'' greens: '' @ Sg @ '', yellows: '' @ Sy"
  have nF: "CHR ''F'' \<notin> set ?tail"
    using assms(1,2) not_digit_chars(1) by auto
  have "split_from ?sep [] (''You submitted ['' @ (W @ CHR '']'' # (''.'' @ [CHR 0x0A] @ ?sep @ ?tail)))
        = split_from ?sep ([] @ ''You submitted ['') (W @ CHR '']'' # (''.'' @ [CHR 0x0A] @ ?sep @ ?tail))"
    by (rule split_from_skip_head) simp_all
  also have "\<dots> = split_from ?sep (([] @ ''You submitted ['') @ W) (CHR '']'' # (''.'' @ [CHR 0x0A] @ ?sep @ ?tail))"
    using assms(3) split_from_skip_second [of "CHR ''e''" W "CHR '']''" "CHR ''F''" "''edback:''"]
    by simp
  also have "\<dots> = split_from ?sep ((([] @ ''You submitted ['') @ W) @ (''].'' @ [CHR 0x0A])) (?sep @ ?tail)"
    using split_from_skip_head [of ?sep "''].'' @ [CHR 0x0A]" "([] @ ''You submitted ['') @ W" "?sep @ ?tail"]
    by simp
  also have "\<dots> = ((([] @ ''You submitted ['') @ W) @ (''].'' @ [CHR 0x0A])) # split_from ?sep [] ?tail"
    by (rule split_from_at_sep) simp
  also have "split_from ?sep [] ?tail = [[] @ ?tail]"
    using nF by (intro split_from_no_head) simp_all
  finally show ?thesis
    by (simp add: split_def)
qed

lemma partial_credit_feedback_msg:
  assumes "get_user_messages completion \<noteq> []"
    and "content (last (get_user_messages completion)) = feedback_msg word g y"
    and "0 \<le> g" "0 \<le> y"
  shows "partial_credit_reward_func completion = Inr (0.2 * real_of_int g + 0.1 * real_of_int y)"
proof -
  define Sg where "Sg = str_nat (nat g)"
  define Sy where "Sy = str_nat (nat y)"
  define W where "W = upper word"
  define msg where "msg = ''You submitted ['' @ W @ ''].'' @ [CHR 0x0A] @ ''Feedback: greens: '' @ Sg @ '', yellows: '' @ Sy"
  have dg: "Sg \<noteq> []" "\<forall>c\<in>set Sg. is_digit c" and dy: "Sy \<noteq> []" "\<forall>c\<in>set Sy. is_digit c"
    using str_nat_digits by (simp_all add: Sg_def Sy_def)
  have We: "CHR ''e'' \<notin> set W"
  proof
    assume "CHR ''e'' \<in> set W"
    then obtain c where "upper_char c = CHR ''e''" by (auto simp: W_def upper_def)
    then show False using upper_char_not_e by blast
  qed
  have m: "feedback_msg word g y = msg"
    using assms(3,4) by (simp add: feedback_msg_def msg_def W_def Sg_def Sy_def str_int_nonneg)
  have ly: "\<not> is_space (last Sy)"
    using dy is_digit_cases by (metis last_in_set)
  have st: "strip msg = msg"
    using dy(1) ly by (intro strip_id) (simp_all add: msg_def is_space_def)
  have ct: "contains ''Feedback:'' msg"
  proof -
    have "msg = (''You submitted ['' @ W @ ''].'' @ [CHR 0x0A]) @ ''Feedback:'' @ ('' greens: '' @ Sg @ '', yellows: '' @ Sy)"
      by (simp add: msg_def)
    then show ?thesis by (metis contains_append)
  qed
  have sp: "last (split msg ''Feedback:'') = '' '' @ (''greens: '' @ Sg @ '', yellows: '' @ Sy)"
    unfolding msg_def using feedback_msg_split [OF dg(2) dy(2) We] by simp
  note fl = feedback_line_parse [OF dg dy]
  have vg: "int_of_digits Sg = g" and vy: "int_of_digits Sy = y"
    using assms(3,4) by (simp_all add: Sg_def Sy_def int_of_digits_str_nat)
  obtain u us where u: "get_user_messages completion = u # us"
    using assms(1) by (cases "get_user_messages completion") auto
  have c: "content (last (u # us)) = msg"
    using assms(2) m u by simp
  show ?thesis
    unfolding partial_credit_reward_func_def u
    by (simp only: list.case Let_def c st ct if_True sp fl vg vy prod.case option.case)
qed

text \<open>
  Claim C9, as the code has it. For a transcript with at least one message of the
  environment, the reward is read from the last of them, stripped: it is 0 when the
  message holds no marker \<open>Feedback:\<close>; with a marker it is \<open>0.2 * greens + 0.1 * yellows\<close>
  for the first counts \<open>greens: n\<close> and \<open>yellows: n\<close> found in the text after the last
  marker, and 0 when one of the two is not found there; and for the feedback message of
  the engine with the counts \<open>g\<close> and \<open>y\<close> it is \<open>0.2 * g + 0.1 * y\<close>.
\<close>

theorem partial_credit_formula:
  assumes "get_user_messages completion \<noteq> []"
  shows "(\<not> contains ''Feedback:'' (strip (content (last (get_user_messages completion))))
            \<longrightarrow> partial_credit_reward_func completion = Inr 0)
       \<and> (contains ''Feedback:'' (strip (content (last (get_user_messages completion))))
            \<longrightarrow> partial_credit_reward_func completion =
                  Inr (case (re_search_count ''greens:''
                               (strip (last (split (strip (content (last (get_user_messages completion))))
                                               ''Feedback:''))),
                             re_search_count ''yellows:''
                               (strip (last (split (strip (content (last (get_user_messages completion))))
                                               ''Feedback:'')))) of
                         (Some gd, Some yd) \<Rightarrow>
                           0.2 * real_of_int (int_of_digits gd) + 0.1 * real_of_int (int_of_digits yd)
                       | _ \<Rightarrow> 0))
       \<and> (\<forall>word g y. 0 \<le> g \<and> 0 \<le> y
              \<and> content (last (get_user_messages completion)) = feedback_msg word g y
            \<longrightarrow> partial_credit_reward_func completion
                  = Inr (0.2 * real_of_int g + 0.1 * real_of_int y))"
proof -
  obtain u us where u: "get_user_messages completion = u # us"
    using assms by (cases "get_user_messages completion") auto
  have a: "\<not> contains ''Feedback:'' (strip (content (last (get_user_messages completion))))
            \<longrightarrow> partial_credit_reward_func completion = Inr 0"
    by (simp add: partial_credit_reward_func_def u)
  have b: "contains ''Feedback:'' (strip (content (last (get_user_messages completion))))
            \<longrightarrow> partial_credit_reward_func completion =
                  Inr (case (re_search_count ''greens:''
                               (strip (last (split (strip (content (last (get_user_messages completion))))
                                               ''Feedback:''))),
                             re_search_count ''yellows:''
                               (strip (last (split (strip (content (last (get_user_messages completion))))
                                               ''Feedback:'')))) of
                         (Some gd, Some yd) \<Rightarrow>
                           0.2 * real_of_int (int_of_digits gd) + 0.1 * real_of_int (int_of_digits yd)
                       | _ \<Rightarrow> 0)"
    by (simp add: partial_credit_reward_func_def u Let_def split: option.splits)
  have c: "\<forall>word g y. 0 \<le> g \<and> 0 \<le> y
              \<and> content (last (get_user_messages completion)) = feedback_msg word g y
            \<longrightarrow> partial_credit_reward_func completion
                  = Inr (0.2 * real_of_int g + 0.1 * real_of_int y)"
    using partial_credit_feedback_msg [OF assms] by blast
  show ?thesis using a b c by (intro conjI)
qed

text \<open>
  The hypotheses hold on the transcripts of the repository's two tests: the feedback
  \<open>greens: 1, yellows: 2\<close> gives 0.4, and a last message without the marker gives 0.
\<close>

theorem partial_credit_formula_witness:
  "get_user_messages partial_credit_example \<noteq> []
   \<and> content (last (get_user_messages partial_credit_example)) = feedback_msg ''crane'' 1 2
   \<and> partial_credit_reward_func partial_credit_example = Inr 0.4
   \<and> get_user_messages no_feedback_example \<noteq> []
   \<and> \<not> contains ''Feedback:'' (strip (content (last (get_user_messages no_feedback_example))))
   \<and> partial_credit_reward_func no_feedback_example = Inr 0"
proof -
  have n1: "get_user_messages partial_credit_example \<noteq> []" by code_simp
  have c1: "content (last (get_user_messages partial_credit_example)) = feedback_msg ''crane'' 1 2"
    by code_simp
  have n2: "get_user_messages no_feedback_example \<noteq> []" by code_simp
  have c2: "\<not> contains ''Feedback:'' (strip (content (last (get_user_messages no_feedback_example))))"
    by code_simp
  note t1 = partial_credit_formula [OF n1]
  note t2 = partial_credit_formula [OF n2]
  have q: "\<forall>word g y. 0 \<le> g \<and> 0 \<le> y
              \<and> content (last (get_user_messages partial_credit_example)) = feedback_msg word g y
            \<longrightarrow> partial_credit_reward_func partial_credit_example
                  = Inr (0.2 * real_of_int g + 0.1 * real_of_int y)"
    by (rule conjunct2 [OF conjunct2 [OF t1]])
  have "partial_credit_reward_func partial_credit_example
        = Inr (0.2 * real_of_int 1 + 0.1 * real_of_int 2)"
    using q [rule_format, where g = 1 and y = 2 and word = "''crane''"] c1 by simp
  then have r1: "partial_credit_reward_func partial_credit_example = Inr 0.4" by simp
  have r2: "partial_credit_reward_func no_feedback_example = Inr 0"
    using conjunct1 [OF t2] c2 by simp
  show ?thesis using n1 c1 r1 n2 c2 r2 by (intro conjI)
qed

text \<open>
  Claim C9, as the specification states it, fails. A last message that holds the marker
  followed by both counts, and a second marker after them, gets the reward 0: the
  counts are looked for after the last marker only. And a transcript with no message of
  the environment has no reward at all: the index \<^verbatim>\<open>[-1]\<close> raises \<^verbatim>\<open>IndexError\<close>.
\<close>

theorem partial_credit_counterexample:
  "contains ''Feedback: greens: 1, yellows: 2'' (content (last (get_user_messages two_markers_example)))
   \<and> partial_credit_reward_func two_markers_example = Inr 0
   \<and> partial_credit_reward_func no_user_example = Inl IndexError"
  by code_simp

end
